theory Spec2Isabelle
  imports
    Main
    "HOL-Library.Char_ord"
    "HOL-Library.List_Lexorder"
    "HOL-Library.Product_Lexorder"
    "HOL-Library.Multiset"
begin

section \<open>Text primitives of the Python scripts\<close>

text \<open>
  A Python \<open>str\<close> is modelled as a \<^typ>\<open>string\<close>, one \<^typ>\<open>char\<close> per code point, which
  covers the code points U+0000 to U+00FF. On that range \<open>str.isspace\<close>, \<open>str.lower\<close>,
  the regular-expression classes \<open>\s\<close>, \<open>\d\<close>, \<open>\w\<close> and the comparison of strings are
  the functions below. The full-width ampersand U+FF06 that \<open>split_multi\<close> replaces by
  \<open>&\<close> lies outside the range, so that replacement is the identity here.
\<close>

definition is_space :: "char \<Rightarrow> bool" where
  "is_space c = (let n = (of_char c :: nat) in
     (9 \<le> n \<and> n \<le> 13) \<or> (28 \<le> n \<and> n \<le> 32) \<or> n = 133 \<or> n = 160)"

definition lower_char :: "char \<Rightarrow> char" where
  "lower_char c = (let n = (of_char c :: nat) in
     if (65 \<le> n \<and> n \<le> 90) \<or> (192 \<le> n \<and> n \<le> 222 \<and> n \<noteq> 215)
     then char_of (n + 32) else c)"

definition lower :: "string \<Rightarrow> string" where
  "lower s = map lower_char s"

definition lstrip :: "string \<Rightarrow> string" where
  "lstrip s = dropWhile is_space s"

definition rstrip :: "string \<Rightarrow> string" where
  "rstrip s = rev (dropWhile is_space (rev s))"

definition strip :: "string \<Rightarrow> string" where
  "strip s = rstrip (lstrip s)"

text \<open>\<open>p in s\<close> on strings: \<open>p\<close> occurs in \<open>s\<close> as a contiguous substring.\<close>

fun starts_with :: "string \<Rightarrow> string \<Rightarrow> bool" where
  "starts_with [] s = True"
| "starts_with (p # ps) [] = False"
| "starts_with (p # ps) (c # cs) = (p = c \<and> starts_with ps cs)"

fun str_in :: "string \<Rightarrow> string \<Rightarrow> bool" where
  "str_in p [] = (p = [])"
| "str_in p (c # cs) = (starts_with p (c # cs) \<or> str_in p cs)"

text \<open>\<open>a or b\<close> on lists: the first operand unless it is empty.\<close>

definition py_or :: "'a list \<Rightarrow> 'a list \<Rightarrow> 'a list" where
  "py_or a b = (if a = [] then b else a)"

section \<open>Cells and tokenization\<close>

text \<open>
  A spreadsheet cell as pandas hands it over: \<open>None\<close>, a floating-point NaN, or any other
  value, which the scripts only ever use through \<open>str(x)\<close>.
\<close>

datatype cell = CNone | CNaN | CText string

fun cell_str :: "cell \<Rightarrow> string" where
  "cell_str CNone = ''None''"
| "cell_str CNaN = ''nan''"
| "cell_str (CText s) = s"

fun is_empty :: "cell \<Rightarrow> bool" where
  "is_empty CNone = True"
| "is_empty CNaN = True"
| "is_empty (CText s) = (strip s = [])"

text \<open>The separator class of \<open>split_multi\<close>: \<open>; , | / + &\<close> and the middle dot U+00B7.\<close>

definition is_sep :: "char \<Rightarrow> bool" where
  "is_sep c = (c \<in> set [CHR '';'', CHR '','', CHR ''|'', CHR ''/'', CHR ''+'', CHR 0xB7, CHR ''&''])"

text \<open>
  \<open>re.split\<close> on a pattern \<open>[class]+\<close>: the string is cut at every maximal run of
  characters of the class; a run at either end leaves an empty piece there.
\<close>

fun re_split_class :: "(char \<Rightarrow> bool) \<Rightarrow> string \<Rightarrow> string list" where
  "re_split_class P [] = [[]]"
| "re_split_class P (c # cs) =
     (if P c then
        (case cs of
           [] \<Rightarrow> [] # re_split_class P cs
         | d # ds \<Rightarrow> if P d then re_split_class P cs else [] # re_split_class P cs)
      else
        (case re_split_class P cs of
           [] \<Rightarrow> [[c]]
         | p # ps \<Rightarrow> (c # p) # ps))"

definition split_multi :: "cell \<Rightarrow> string list" where
  "split_multi raw =
     (if is_empty raw then []
      else
        let s = cell_str raw;
            parts = re_split_class is_sep s
        in map strip (filter (\<lambda>p. strip p \<noteq> []) parts))"

section \<open>Label matchers of the taxonomy and algorithm report\<close>

definition TAXONOMY_KEYS :: "string list" where
  "TAXONOMY_KEYS = [''coverage'', ''requirement'', ''probability'', ''distribution'',
                    ''human'', ''clustering'', ''history'', ''model'', ''cost'', ''other'']"

definition ALGO_KEYS :: "string list" where
  "ALGO_KEYS = [''heuristic'', ''meta'', ''graph'', ''dynamic'', ''ml'', ''greedy'']"

text \<open>
  The first two statements of every label matcher:
  \<open>s = "" if is_empty(cell_value) else str(cell_value).lower()\<close> and
  \<open>tokens = split_multi(s) or [s]\<close>.
\<close>

definition matcher_tokens :: "cell \<Rightarrow> string list" where
  "matcher_tokens cell_value =
     (let s = (if is_empty cell_value then [] else lower (cell_str cell_value))
      in py_or (split_multi (CText s)) [s])"

definition match_taxonomy_labels_keys :: "string list \<Rightarrow> cell \<Rightarrow> string set" where
  "match_taxonomy_labels_keys tax_keys cell_value =
     fold (\<lambda>tok found.
             let lt = lower tok
             in fold (\<lambda>key found. if str_in key lt then insert key found else found)
                  tax_keys found)
       (matcher_tokens cell_value) {}"

definition match_taxonomy_labels :: "cell \<Rightarrow> string set" where
  "match_taxonomy_labels cell_value = match_taxonomy_labels_keys TAXONOMY_KEYS cell_value"

definition algo_step :: "string \<Rightarrow> string set \<Rightarrow> string set" where
  "algo_step tok found =
     (let lt = lower tok;
          found = (if str_in ''meta'' lt then insert ''meta'' found else found);
          found = (if str_in ''heuristic'' lt \<and> \<not> str_in ''meta'' lt
                   then insert ''heuristic'' found else found);
          found = (if str_in ''graph'' lt then insert ''graph'' found else found);
          found = (if str_in ''dynamic'' lt then insert ''dynamic'' found else found);
          found = (if str_in ''ml'' lt \<or> str_in ''machine learning'' lt
                   then insert ''ml'' found else found);
          found = (if str_in ''greedy'' lt then insert ''greedy'' found else found)
      in found)"

definition match_algorithm_labels :: "cell \<Rightarrow> string set" where
  "match_algorithm_labels cell_value = fold algo_step (matcher_tokens cell_value) {}"

text \<open>
  The algorithm rule in the specification's words: a label fires on a token that contains
  it (\<open>ml\<close> also on the phrase \<open>machine learning\<close>), except that \<open>heuristic\<close> is
  suppressed on a token that contains \<open>meta\<close>.
\<close>

definition algo_key_fires :: "string \<Rightarrow> string \<Rightarrow> bool" where
  "algo_key_fires key lt =
     ((str_in key lt \<or> (key = ''ml'' \<and> str_in ''machine learning'' lt))
      \<and> \<not> (key = ''heuristic'' \<and> str_in ''meta'' lt))"

section \<open>Regular expressions of the metrics report\<close>

text \<open>
  The patterns of \<open>metrics_report.py\<close> use literal characters, the word boundary \<open>\b\<close>,
  the optional item \<open>x?\<close> and \<open>(group)?\<close>, and the alternative \<open>a|b\<close>. They are compiled
  with \<open>re.IGNORECASE\<close>. A matcher position is the character before it (if any) and the
  rest of the text; \<open>rmatch\<close> lists the positions at which a match of the pattern that
  starts at the given position can end, so \<open>search\<close> succeeds exactly when some start
  position has such an end.
\<close>

datatype regex = Eps | Lit char | WordB | Cat regex regex | Alt regex regex | Opt regex

text \<open>The class \<open>\w\<close>: alphanumeric characters and the underscore.\<close>

definition is_word :: "char \<Rightarrow> bool" where
  "is_word c = (let n = (of_char c :: nat) in
     (48 \<le> n \<and> n \<le> 57) \<or> (65 \<le> n \<and> n \<le> 90) \<or> n = 95 \<or> (97 \<le> n \<and> n \<le> 122)
     \<or> n = 170 \<or> n = 178 \<or> n = 179 \<or> n = 181 \<or> n = 185 \<or> n = 186
     \<or> (188 \<le> n \<and> n \<le> 190) \<or> (192 \<le> n \<and> n \<le> 214) \<or> (216 \<le> n \<and> n \<le> 246)
     \<or> (248 \<le> n \<and> n \<le> 255))"

fun word_before :: "char option \<Rightarrow> bool" where
  "word_before None = False"
| "word_before (Some c) = is_word c"

fun word_after :: "string \<Rightarrow> bool" where
  "word_after [] = False"
| "word_after (c # cs) = is_word c"

fun rmatch :: "regex \<Rightarrow> char option \<times> string \<Rightarrow> (char option \<times> string) list" where
  "rmatch Eps st = [st]"
| "rmatch (Lit c) (p, []) = []"
| "rmatch (Lit c) (p, d # ds) = (if lower_char c = lower_char d then [(Some d, ds)] else [])"
| "rmatch WordB (p, s) = (if word_before p \<noteq> word_after s then [(p, s)] else [])"
| "rmatch (Cat r1 r2) st = concat (map (rmatch r2) (rmatch r1 st))"
| "rmatch (Alt r1 r2) st = rmatch r1 st @ rmatch r2 st"
| "rmatch (Opt r) st = rmatch r st @ [st]"

fun search_from :: "regex \<Rightarrow> char option \<Rightarrow> string \<Rightarrow> bool" where
  "search_from r p [] = (rmatch r (p, []) \<noteq> [])"
| "search_from r p (c # cs) = (rmatch r (p, c # cs) \<noteq> [] \<or> search_from r (Some c) cs)"

definition re_search :: "regex \<Rightarrow> string \<Rightarrow> bool" where
  "re_search r s = search_from r None s"

text \<open>Pattern notation: a literal string, \<open>\b\<close>, and a sequence of items.\<close>

definition lit :: "string \<Rightarrow> regex" where
  "lit s = foldr (\<lambda>c r. Cat (Lit c) r) s Eps"

definition seq :: "regex list \<Rightarrow> regex" where
  "seq rs = foldr Cat rs Eps"

section \<open>Metric normalization\<close>

definition PRIO_METRIC_CANON :: "string list" where
  "PRIO_METRIC_CANON =
     [''APFD/NAPFD'',
      ''Code-Coverage'',
      ''Number of Faults Detected / FDR'',
      ''Time-Based / Cost-Aware'',
      ''Precision/Recall/F-Measure'',
      ''Execution Time'',
      ''Other'']"

text \<open>
  \<open>PRIO_COMPILED\<close>: the dictionary \<open>PRIO_METRIC_PATTERNS\<close> in its insertion order, each
  pattern compiled.
\<close>

definition PRIO_COMPILED :: "(string \<times> regex list) list" where
  "PRIO_COMPILED =
     [(''APFD/NAPFD'',
        [seq [WordB, lit ''apfd'', WordB],
         seq [WordB, lit ''napfd'', WordB],
         seq [lit ''normalized'', Opt (Lit CHR ''-''), lit ''apfd'', WordB],
         seq [WordB, lit ''apfdc'', WordB],
         seq [WordB, lit ''apva'', WordB],
         seq [WordB, lit ''afdp'', WordB],
         seq [WordB, lit ''afpd'', WordB],
         seq [lit ''average percentage '', Opt (lit ''of ''), lit ''faults detected'']]),
      (''Code-Coverage'',
        [seq [WordB, lit ''apbc'', WordB],
         seq [WordB, lit ''apsc'', WordB],
         seq [WordB, lit ''apfc'', WordB]]),
      (''Number of Faults Detected / FDR'',
        [seq [lit ''fault'', Opt (Lit CHR ''s''), lit '' detected'', WordB],
         seq [WordB, lit ''fdr'', WordB],
         lit ''fault detection rate'',
         seq [lit ''high'', Opt (Lit CHR ''-''), lit ''severity faults detected early'']]),
      (''Time-Based / Cost-Aware'',
        [Alt (lit ''time to first failure'') (seq [WordB, lit ''ttff'', WordB]),
         Alt (lit ''mean fault detection time'') (seq [WordB, lit ''mtfd'', WordB]),
         lit ''time to risk detection'',
         lit ''execution cost'',
         seq [lit ''cost'', Opt (Lit CHR ''-''), lit ''aware apfdc''],
         lit ''average percentage of fault detected per cost'']),
      (''Precision/Recall/F-Measure'',
        [seq [WordB, lit ''precision'', WordB],
         seq [WordB, lit ''recall'', WordB],
         seq [lit ''f'', Opt (Lit CHR ''-''), lit ''measure'', WordB],
         seq [WordB, lit ''f1'', Opt (Lit CHR ''-''), lit ''score'', WordB]]),
      (''Execution Time'',
        [lit ''prioritization execution time'',
         lit ''time for prioritization'',
         seq [lit ''execution time'', Opt (lit '' per algorithm''), WordB]])]"

definition PRIO_OTHER_COMPILED :: "regex list" where
  "PRIO_OTHER_COMPILED =
     [lit ''kendall tau'',
      lit ''redundancy rate'',
      seq [WordB, lit ''hypervolume'', WordB],
      seq [WordB, lit ''nrpa'', WordB],
      seq [WordB, lit ''ndcg'', WordB],
      lit ''mutation score'',
      lit ''effectiveness on flaky tests'',
      seq [WordB, lit ''code coverage'', WordB],
      seq [lit ''first'', Opt (Lit CHR ''-''), lit ''fault position''],
      lit ''target test path finding rate'',
      lit ''hamming distance'',
      seq [lit ''#'', Opt (Lit CHR '' ''), lit ''of test cases executed''],
      lit ''percentage of suite runned'']"

definition SEL_METRIC_CANON :: "string list" where
  "SEL_METRIC_CANON =
     [''Number of Test Cases / Ratio'',
      ''Time-Based'',
      ''Precision/Recall/F-Measure'',
      ''Safety / Fault-Detection Capability'',
      ''Other'']"

definition SEL_COMPILED :: "(string \<times> regex list) list" where
  "SEL_COMPILED =
     [(''Number of Test Cases / Ratio'',
        [lit ''numero test selezionati'',
         seq [lit ''%'', Opt (Lit CHR '' ''), lit ''di test selezionati''],
         seq [lit ''#'', Opt (Lit CHR '' ''), lit ''test'', Opt (Lit CHR ''s''), lit '' selected''],
         lit ''selected test ratio'',
         lit ''test suite reduction'']),
      (''Time-Based'',
        [lit ''user+system execution time'',
         lit ''test suite execution time'',
         seq [WordB, lit ''time'', WordB],
         seq [WordB, lit ''ae time'', WordB],
         seq [WordB, lit ''aec time'', WordB],
         lit ''execution time'']),
      (''Precision/Recall/F-Measure'',
        [seq [WordB, lit ''precision'', WordB],
         seq [WordB, lit ''recall'', WordB],
         seq [lit ''f'', Opt (Lit CHR ''-''), lit ''measure'', WordB],
         seq [WordB, lit ''precision'', Opt (Lit CHR '' ''), lit ''%'', WordB]]),
      (''Safety / Fault-Detection Capability'',
        [seq [WordB, lit ''safety'', WordB],
         lit ''safety %'',
         seq [lit ''fault'', Opt (Lit CHR ''-''), lit ''detection capability''],
         lit ''fault detection ability'',
         lit ''number of detected faults'',
         lit ''detection effectiveness''])]"

definition SEL_OTHER_COMPILED :: "regex list" where
  "SEL_OTHER_COMPILED =
     [seq [WordB, lit ''hypervolume'', WordB],
      seq [lit ''qualitative'', Opt (Lit CHR ''/''), lit ''effectiveness''],
      lit ''time saving percentage'',
      seq [lit ''size of '', Opt (lit ''the ''), lit ''pareto frontier''],
      seq [lit ''number of non'', Opt (Lit CHR ''-''), lit ''dominated solutions''],
      lit ''memory consumption'']"

text \<open>
  The inner loop \<open>for rgx in regex_list: if rgx.search(lt): ...; break\<close>: the list is
  scanned up to its first pattern that matches.
\<close>

fun first_match :: "regex list \<Rightarrow> string \<Rightarrow> bool" where
  "first_match [] lt = False"
| "first_match (rgx # regex_list) lt = (if re_search rgx lt then True else first_match regex_list lt)"

text \<open>The loop over the canonical buckets; the state is \<open>(found, matched_any)\<close>.\<close>

definition canon_step :: "string \<Rightarrow> string \<times> regex list \<Rightarrow> string set \<times> bool \<Rightarrow> string set \<times> bool" where
  "canon_step lt entry st =
     (case entry of (canon, regex_list) \<Rightarrow>
        (case st of (found, matched_any) \<Rightarrow>
           if first_match regex_list lt then (insert canon found, True)
           else (found, matched_any)))"

text \<open>The body of the loop over the tokens of a metrics cell.\<close>

definition metric_token_step ::
  "(string \<times> regex list) list \<Rightarrow> regex list \<Rightarrow> string \<Rightarrow> string set \<Rightarrow> string set" where
  "metric_token_step compiled other_compiled tok found =
     (let lt = lower tok;
          st = fold (canon_step lt) compiled (found, False);
          found = fst st;
          matched_any = snd st
      in if \<not> matched_any then
           (if first_match other_compiled lt then insert ''Other'' found else found)
         else found)"

text \<open>
  \<open>normalize_metrics_for_prioritization\<close> and \<open>normalize_metrics_for_selection\<close> have the
  same body and differ in the two compiled tables only.
\<close>

definition normalize_metrics ::
  "(string \<times> regex list) list \<Rightarrow> regex list \<Rightarrow> cell \<Rightarrow> string set" where
  "normalize_metrics compiled other_compiled cell_value =
     (if is_empty cell_value then {}
      else
        let text = cell_str cell_value;
            tokens = py_or (split_multi (CText text)) [text]
        in fold (metric_token_step compiled other_compiled) tokens {})"

definition normalize_metrics_for_prioritization :: "cell \<Rightarrow> string set" where
  "normalize_metrics_for_prioritization cell_value =
     normalize_metrics PRIO_COMPILED PRIO_OTHER_COMPILED cell_value"

definition normalize_metrics_for_selection :: "cell \<Rightarrow> string set" where
  "normalize_metrics_for_selection cell_value =
     normalize_metrics SEL_COMPILED SEL_OTHER_COMPILED cell_value"

text \<open>The taxonomy keys of the metrics report, one list per method.\<close>

definition PRIO_TAX_KEYS :: "string list" where
  "PRIO_TAX_KEYS = [''coverage'', ''requirement'', ''probability'', ''distribution'',
                    ''human'', ''clustering'', ''history'', ''model'', ''cost'', ''other'']"

definition SEL_TAX_KEYS :: "string list" where
  "SEL_TAX_KEYS = [''integer'', ''data-'', ''symbolic'', ''dynamic'', ''graph'',
                   ''textual'', ''sdg'', ''path'', ''modification'', ''firewall'',
                   ''cluster'', ''design'']"

text \<open>
  The metric rule in the specification's words. \<open>canon_labels\<close>: every canonical label one
  of whose own patterns matches the token, each label decided by its own pattern list.
  \<open>token_labels\<close>: these labels, or \<open>Other\<close> when there is none and an other-hint
  matches, or nothing.
\<close>

definition canon_labels :: "(string \<times> regex list) list \<Rightarrow> string \<Rightarrow> string set" where
  "canon_labels compiled lt =
     set (map fst (filter (\<lambda>entry. \<exists>rgx \<in> set (snd entry). re_search rgx lt) compiled))"

definition token_labels :: "(string \<times> regex list) list \<Rightarrow> regex list \<Rightarrow> string \<Rightarrow> string set" where
  "token_labels compiled other_compiled lt =
     (let canon = canon_labels compiled lt
      in if canon \<noteq> {} then canon
         else if \<exists>rgx \<in> set other_compiled. re_search rgx lt then {''Other''}
         else {})"

section \<open>SUT origin classifier\<close>

definition CATEGORY_ORDER :: "string list" where
  "CATEGORY_ORDER =
     [''SIR'',
      ''Defects4J'',
      ''Apache Projects'',
      ''Industrial / Proprietary'',
      ''Other Public Repositories'']"

definition SIR_PROGRAMS :: "string set" where
  "SIR_PROGRAMS =
     {''print_tokens'', ''print tokens'', ''print_tokens 2'', ''print tokens 2'',
      ''flex'', ''grep'', ''sed'', ''space'', ''gzip'',
      ''nano-xml'', ''nano xml'',
      ''xml-security'', ''xml security'',
      ''ant'', ''jtopas'', ''replace'', ''schedule'', ''schedule2'', ''tcas'', ''totinfo''}"

definition SIR_MARKERS :: "string set" where
  "SIR_MARKERS = {''sir''}"

definition DEFECTS4J_PROJECTS :: "string set" where
  "DEFECTS4J_PROJECTS =
     {''chart'', ''jfreechart'',
      ''closure'',
      ''math'', ''commons-math'', ''commons math'',
      ''lang'', ''commons-lang'', ''commons lang'',
      ''time'', ''joda-time'', ''joda time'',
      ''mockito'',
      ''cli'', ''commons-cli'', ''commons cli'',
      ''codec'', ''commons-codec'', ''commons codec'',
      ''collections'', ''commons-collections'', ''commons collections'',
      ''compress'', ''commons-compress'', ''commons compress'',
      ''gson'', ''jsoup'', ''jxpath''}"

definition DEFECTS4J_MARKERS :: "string set" where
  "DEFECTS4J_MARKERS = {''defects4j'', ''defect4j'', ''defects 4j''}"

definition APACHE_PROJECTS :: "string set" where
  "APACHE_PROJECTS =
     {''ant'', ''jmeter'', ''tomcat'', ''camel'',
      ''commons-math'', ''commons lang'', ''commons-lang'', ''commons-io'', ''commons io'',
      ''commons-cli'', ''commons cli'', ''commons-codec'', ''commons codec'',
      ''commons-collections'', ''commons collections'', ''commons-compress'',
      ''commons compress'',
      ''struts'', ''hadoop'', ''spark'', ''jfreechart'', ''xml-security'', ''xml security''}"

definition APACHE_MARKERS :: "string set" where
  "APACHE_MARKERS = {''apache'', ''apache software foundation'', ''asf''}"

definition INDUSTRIAL_MARKERS :: "string set" where
  "INDUSTRIAL_MARKERS =
     {''industrial'', ''proprietary'', ''company'', ''industry'',
      ''cisco'', ''abb'', ''abb robotics'', ''omicron'', ''siemens'', ''bosch'',
      ''google open source data set'', ''google open source dataset'',
      ''google open-source data set'', ''google dataset''}"

definition OTHER_PUBLIC_SET :: "string set" where
  "OTHER_PUBLIC_SET =
     {''nopcommerce'', ''umbraco'', ''jedit'', ''freemind'', ''k9-mail'', ''k9 mail'',
      ''open sudoku'', ''open-sudoku'', ''tcp-ci-dataset'', ''tcp ci dataset''}"

definition OTHER_PUBLIC_MARKERS :: "string set" where
  "OTHER_PUBLIC_MARKERS =
     {''open source dataset'', ''public dataset'', ''dataset pubblico'', ''open dataset''}"

definition to_lc :: "string \<Rightarrow> string" where
  "to_lc x = lower (strip x)"

text \<open>The two local helpers of \<open>categorize_sut_tokens\<close>, closed over \<open>lc_tokens\<close>.\<close>

definition any_token_contains :: "string list \<Rightarrow> string set \<Rightarrow> bool" where
  "any_token_contains lc_tokens patterns =
     (\<exists>tok \<in> set lc_tokens. \<exists>p \<in> patterns. str_in p tok)"

definition any_token_equals_or_contains :: "string list \<Rightarrow> string set \<Rightarrow> bool" where
  "any_token_equals_or_contains lc_tokens names =
     (\<exists>tok \<in> set lc_tokens. \<exists>p \<in> names. p = tok \<or> str_in p tok)"

text \<open>The five membership tests, in the order in which the function runs them.\<close>

definition sir_test :: "string list \<Rightarrow> bool" where
  "sir_test lc_tokens =
     (any_token_contains lc_tokens SIR_MARKERS
      \<or> any_token_equals_or_contains lc_tokens SIR_PROGRAMS)"

definition defects4j_test :: "string list \<Rightarrow> bool" where
  "defects4j_test lc_tokens =
     (any_token_contains lc_tokens DEFECTS4J_MARKERS
      \<or> any_token_equals_or_contains lc_tokens DEFECTS4J_PROJECTS)"

definition apache_test :: "string list \<Rightarrow> bool" where
  "apache_test lc_tokens =
     (any_token_contains lc_tokens APACHE_MARKERS
      \<or> any_token_equals_or_contains lc_tokens APACHE_PROJECTS)"

definition industrial_test :: "string list \<Rightarrow> bool" where
  "industrial_test lc_tokens = any_token_contains lc_tokens INDUSTRIAL_MARKERS"

definition other_public_test :: "string list \<Rightarrow> bool" where
  "other_public_test lc_tokens =
     (any_token_equals_or_contains lc_tokens OTHER_PUBLIC_SET
      \<or> any_token_contains lc_tokens OTHER_PUBLIC_MARKERS)"

definition CATEGORY_TESTS :: "(string \<times> (string list \<Rightarrow> bool)) list" where
  "CATEGORY_TESTS =
     [(''SIR'', sir_test),
      (''Defects4J'', defects4j_test),
      (''Apache Projects'', apache_test),
      (''Industrial / Proprietary'', industrial_test),
      (''Other Public Repositories'', other_public_test)]"

text \<open>One statement \<open>if test: cats.add(category)\<close>.\<close>

definition category_step ::
  "string list \<Rightarrow> string \<times> (string list \<Rightarrow> bool) \<Rightarrow> string set \<Rightarrow> string set" where
  "category_step lc_tokens entry cats =
     (if snd entry lc_tokens then insert (fst entry) cats else cats)"

text \<open>
  The function with its five tests run in a given order, followed by the fallback
  \<open>if not cats and lc_tokens: cats.add("Other Public Repositories")\<close>.
\<close>

definition categorize_in_order ::
  "(string \<times> (string list \<Rightarrow> bool)) list \<Rightarrow> string list \<Rightarrow> string set" where
  "categorize_in_order tests tokens =
     (let lc_tokens = map to_lc tokens;
          cats = fold (category_step lc_tokens) tests {}
      in if cats = {} \<and> lc_tokens \<noteq> [] then insert ''Other Public Repositories'' cats
         else cats)"

definition categorize_sut_tokens :: "string list \<Rightarrow> string set" where
  "categorize_sut_tokens tokens =
     (let lc_tokens = map to_lc tokens;
          cats = {};
          cats = (if any_token_contains lc_tokens SIR_MARKERS
                     \<or> any_token_equals_or_contains lc_tokens SIR_PROGRAMS
                  then insert ''SIR'' cats else cats);
          cats = (if any_token_contains lc_tokens DEFECTS4J_MARKERS
                     \<or> any_token_equals_or_contains lc_tokens DEFECTS4J_PROJECTS
                  then insert ''Defects4J'' cats else cats);
          cats = (if any_token_contains lc_tokens APACHE_MARKERS
                     \<or> any_token_equals_or_contains lc_tokens APACHE_PROJECTS
                  then insert ''Apache Projects'' cats else cats);
          cats = (if any_token_contains lc_tokens INDUSTRIAL_MARKERS
                  then insert ''Industrial / Proprietary'' cats else cats);
          cats = (if any_token_equals_or_contains lc_tokens OTHER_PUBLIC_SET
                     \<or> any_token_contains lc_tokens OTHER_PUBLIC_MARKERS
                  then insert ''Other Public Repositories'' cats else cats);
          cats = (if cats = {} \<and> lc_tokens \<noteq> []
                  then insert ''Other Public Repositories'' cats else cats)
      in cats)"

section \<open>Integers in text\<close>

datatype py_error = IndexError | ValueError

definition is_digit :: "char \<Rightarrow> bool" where
  "is_digit c = (let n = (of_char c :: nat) in 48 \<le> n \<and> n \<le> 57)"

definition digit_val :: "char \<Rightarrow> nat" where
  "digit_val c = of_char c - 48"

text \<open>
  \<open>int(text)\<close> in base ten: whitespace is dropped at both ends, one sign may lead, and
  the digits may be grouped by single underscores; anything else raises \<open>ValueError\<close>.
  The whitespace that \<open>int\<close> drops is that of \<open>str.isspace\<close> without the separators
  U+001C to U+001F. A text with more digits than the interpreter's limit
  (\<open>sys.get_int_max_str_digits()\<close>, 4300 by default) raises \<open>ValueError\<close> as well.
\<close>

definition is_int_space :: "char \<Rightarrow> bool" where
  "is_int_space c = (let n = (of_char c :: nat) in
     (9 \<le> n \<and> n \<le> 13) \<or> n = 32 \<or> n = 133 \<or> n = 160)"

definition int_strip :: "string \<Rightarrow> string" where
  "int_strip s = rev (dropWhile is_int_space (rev (dropWhile is_int_space s)))"

definition INT_MAX_STR_DIGITS :: nat where
  "INT_MAX_STR_DIGITS = 4300"

fun digits_ok :: "string \<Rightarrow> bool" where
  "digits_ok [] = False"
| "digits_ok [c] = is_digit c"
| "digits_ok (c # d # cs) =
     (is_digit c \<and> (if d = CHR ''_'' then digits_ok cs else digits_ok (d # cs)))"

fun digits_value :: "nat \<Rightarrow> string \<Rightarrow> nat" where
  "digits_value acc [] = acc"
| "digits_value acc (c # cs) =
     (if c = CHR ''_'' then digits_value acc cs else digits_value (10 * acc + digit_val c) cs)"

text \<open>The digits after the sign: their syntax, their number, their value.\<close>

definition int_of_digits :: "bool \<Rightarrow> string \<Rightarrow> py_error + int" where
  "int_of_digits negative body =
     (if \<not> digits_ok body then Inl ValueError
      else if length (filter is_digit body) > INT_MAX_STR_DIGITS then Inl ValueError
      else if negative then Inr (- int (digits_value 0 body))
      else Inr (int (digits_value 0 body)))"

definition py_int :: "string \<Rightarrow> py_error + int" where
  "py_int text =
     (let t = int_strip text
      in case t of
           [] \<Rightarrow> Inl ValueError
         | c # cs \<Rightarrow>
             if c = CHR ''-'' then int_of_digits True cs
             else if c = CHR ''+'' then int_of_digits False cs
             else int_of_digits False t)"

text \<open>\<open>str(n)\<close> for a natural number.\<close>

definition digit_char :: "nat \<Rightarrow> char" where
  "digit_char d = char_of (48 + d)"

function str_nat :: "nat \<Rightarrow> string" where
  "str_nat n = (if n < 10 then [digit_char n] else str_nat (n div 10) @ [digit_char (n mod 10)])"
  by pat_completeness auto
termination
  by (relation "measure id") auto

declare str_nat.simps [simp del]


text \<open>\<open>s.split(sep)\<close> for a separator of one character.\<close>

fun split_char :: "char \<Rightarrow> string \<Rightarrow> string list" where
  "split_char sep [] = [[]]"
| "split_char sep (c # cs) =
     (if c = sep then [] # split_char sep cs
      else
        (case split_char sep cs of
           [] \<Rightarrow> [[c]]
         | p # ps \<Rightarrow> (c # p) # ps))"

section \<open>Objective-count parser\<close>





section \<open>Paper identifiers and the finalized paper lists\<close>

definition paper_id_from_index :: "nat \<Rightarrow> string" where
  "paper_id_from_index idx0 = ''paper_'' @ str_nat (idx0 + 1)"

text \<open>The sort key \<open>lambda x: int(x.split("_")[1])\<close>.\<close>

definition paper_key :: "string \<Rightarrow> py_error + int" where
  "paper_key x =
     (case split_char CHR ''_'' x of
        a # b # rest \<Rightarrow> py_int b
      | _ \<Rightarrow> Inl IndexError)"

text \<open>
  \<open>sorted(xs, key=key)\<close>: the key of every element is computed first, in order, and an
  exception of the key ends the call; the elements are then sorted by their keys, elements
  with equal keys staying in their order in \<open>xs\<close>.
\<close>

fun all_keys :: "('a \<Rightarrow> py_error + int) \<Rightarrow> 'a list \<Rightarrow> py_error + int list" where
  "all_keys key [] = Inr []"
| "all_keys key (x # xs) =
     (case key x of
        Inl e \<Rightarrow> Inl e
      | Inr k \<Rightarrow>
          (case all_keys key xs of
             Inl e \<Rightarrow> Inl e
           | Inr ks \<Rightarrow> Inr (k # ks)))"

definition py_sorted_by :: "('a \<Rightarrow> py_error + int) \<Rightarrow> 'a list \<Rightarrow> py_error + 'a list" where
  "py_sorted_by key xs =
     (case all_keys key xs of
        Inl e \<Rightarrow> Inl e
      | Inr ks \<Rightarrow> Inr (map snd (sort_key fst (zip ks xs))))"

text \<open>
  The finalization \<open>sorted(set(v), key=lambda x: int(x.split("_")[1]))\<close> of
  \<open>build_pairs\<close> and of the metrics report. A Python set enumerates its elements in an
  order of its own; \<open>remdups v\<close> is one such enumeration, and the SUT report sorts the
  enumeration of a set with the same key.
\<close>

definition finalize_papers :: "string list \<Rightarrow> py_error + string list" where
  "finalize_papers v = py_sorted_by paper_key (remdups v)"

section \<open>Print order of the cross-tabulations\<close>

text \<open>
  A dictionary whose iteration order matters is an association list in insertion order.
  Strings compare as in Python, by code points, a proper prefix first; tuples compare
  component by component.
\<close>

text \<open>
  Taxonomy and algorithm report:
  \<open>pairs = [(t, a) for (t, a) in pair_map.keys() if pair_map[(t, a)]]\<close> and
  \<open>pairs.sort(key=lambda x: (x[0], x[1]))\<close>.
\<close>

definition algo_print_order ::
  "((string \<times> string) \<times> string list) list \<Rightarrow> (string \<times> string) list" where
  "algo_print_order pair_map =
     (let pairs = map fst (filter (\<lambda>entry. snd entry \<noteq> []) pair_map)
      in sort_key (\<lambda>x. (fst x, snd x)) pairs)"

text \<open>\<open>order_index = {name: i for i, name in enumerate(metric_order)}\<close>\<close>

definition order_index :: "string list \<Rightarrow> (string \<rightharpoonup> nat)" where
  "order_index metric_order =
     fold (\<lambda>entry d. d(snd entry \<mapsto> fst entry)) (enumerate 0 metric_order) Map.empty"

definition dict_get :: "('k \<rightharpoonup> 'v) \<Rightarrow> 'k \<Rightarrow> 'v \<Rightarrow> 'v" where
  "dict_get d k dflt = (case d k of Some v \<Rightarrow> v | None \<Rightarrow> dflt)"

text \<open>The key \<open>lambda x: (x[0], order_index.get(x[1], 10**6), x[1])\<close>.\<close>

definition metric_sort_key :: "string list \<Rightarrow> string \<times> string \<Rightarrow> string \<times> nat \<times> string" where
  "metric_sort_key metric_order x =
     (fst x, dict_get (order_index metric_order) (snd x) (10 ^ 6), snd x)"

text \<open>
  Metrics report: the keys of \<open>tax_metric_to_papers\<close> are sorted by that key, and a line is
  printed for each key, in that order, whose paper list is not empty.
\<close>

definition metric_print_order ::
  "string list \<Rightarrow> ((string \<times> string) \<times> string list) list \<Rightarrow> (string \<times> string) list" where
  "metric_print_order metric_order tax_metric_to_papers =
     (let pairs = sort_key (metric_sort_key metric_order) (map fst tax_metric_to_papers)
      in filter (\<lambda>k. case map_of tax_metric_to_papers k of
                        Some papers \<Rightarrow> papers \<noteq> []
                      | None \<Rightarrow> False) pairs)"

text \<open>
  The print order in the specification's words: by the first component alphabetically,
  then by the position of the second component in the declared order of its enumeration,
  a label outside the enumeration after all declared ones, and alphabetically last.
\<close>

fun position :: "string list \<Rightarrow> string \<Rightarrow> nat option" where
  "position [] l = None"
| "position (x # xs) l = (if x = l then Some 0 else map_option Suc (position xs l))"

definition rank_before :: "string list \<Rightarrow> string \<Rightarrow> string \<Rightarrow> bool" where
  "rank_before enum a b =
     (case position enum a of
        None \<Rightarrow> False
      | Some i \<Rightarrow> (case position enum b of None \<Rightarrow> True | Some j \<Rightarrow> i < j))"

definition label_pair_before :: "string list \<Rightarrow> string \<times> string \<Rightarrow> string \<times> string \<Rightarrow> bool" where
  "label_pair_before enum x y =
     (fst x < fst y
      \<or> (fst x = fst y
          \<and> (rank_before enum (snd x) (snd y)
              \<or> (position enum (snd x) = position enum (snd y) \<and> snd x \<le> snd y))))"

section \<open>Author-list normalizer\<close>

text \<open>\<open>re.sub(r"\s+", " ", s)\<close>: every maximal run of whitespace becomes one space.\<close>

fun collapse_ws :: "string \<Rightarrow> string" where
  "collapse_ws [] = []"
| "collapse_ws (c # cs) =
     (if is_space c then
        (case cs of
           [] \<Rightarrow> [CHR '' '']
         | d # ds \<Rightarrow> if is_space d then collapse_ws cs else CHR '' '' # collapse_ws cs)
      else c # collapse_ws cs)"

text \<open>\<open>sep.join(parts)\<close>\<close>

fun join :: "string \<Rightarrow> string list \<Rightarrow> string" where
  "join sep [] = []"
| "join sep [p] = p"
| "join sep (p # q # ps) = p @ sep @ join sep (q # ps)"

text \<open>\<open>p.strip(",")\<close>\<close>

definition strip_commas :: "string \<Rightarrow> string" where
  "strip_commas p =
     rev (dropWhile (\<lambda>c. c = CHR '','') (rev (dropWhile (\<lambda>c. c = CHR '','') p)))"

text \<open>The classes \<open>[A-Z]\<close> and \<open>[a-z]\<close>.\<close>

definition is_AZ :: "char \<Rightarrow> bool" where
  "is_AZ c = (let n = (of_char c :: nat) in 65 \<le> n \<and> n \<le> 90)"

definition is_az :: "char \<Rightarrow> bool" where
  "is_az c = (let n = (of_char c :: nat) in 97 \<le> n \<and> n \<le> 122)"

text \<open>
  Whether \<open>[^A-Z]*[a-z]\<close> matches at the start of the text: a lower-case letter comes
  before any upper-case letter.
\<close>

fun lookahead_lower :: "string \<Rightarrow> bool" where
  "lookahead_lower [] = False"
| "lookahead_lower (c # cs) =
     (if is_az c then True else if is_AZ c then False else lookahead_lower cs)"

text \<open>
  \<open>re.split(r",(?![^A-Z]*[a-z])", s)\<close>: the text is cut at every comma after which
  that lookahead fails.
\<close>

fun split_author_commas :: "string \<Rightarrow> string list" where
  "split_author_commas [] = [[]]"
| "split_author_commas (c # cs) =
     (if c = CHR '','' \<and> \<not> lookahead_lower cs then [] # split_author_commas cs
      else
        (case split_author_commas cs of
           [] \<Rightarrow> [[c]]
         | p # ps \<Rightarrow> (c # p) # ps))"

text \<open>
  The loop \<open>for i in range(0, len(comma_tokens), 2)\<close> over a list of even length: the
  tokens are taken two at a time, and a pair is kept when both are non-empty.
\<close>

fun pair_up :: "string list \<Rightarrow> string list" where
  "pair_up (last_tok # first_tok # toks) =
     (if last_tok \<noteq> [] \<and> first_tok \<noteq> []
      then (last_tok @ '', '' @ first_tok) # pair_up toks
      else pair_up toks)"
| "pair_up toks = []"

text \<open>
  The last two statements of \<open>normalize_author_list\<close>: the split when there are at least
  three commas, and the return of \<open>s\<close>.
\<close>

definition comma_count_heuristic :: "string \<Rightarrow> string" where
  "comma_count_heuristic s =
     (if count_list s CHR '','' \<ge> 3 then
        (let candidates = split_author_commas s;
             parts = map (\<lambda>p. strip_commas (strip p))
                       (filter (\<lambda>p. strip_commas (strip p) \<noteq> []) candidates)
         in if length parts > 1 then join '' and '' parts else s)
      else s)"

definition normalize_author_list :: "cell \<Rightarrow> string" where
  "normalize_author_list raw =
     (if is_empty raw then []
      else
        let s = strip (cell_str raw)
        in if str_in '' and '' s then collapse_ws s
           else if str_in '';'' s then
             (let parts = map strip (filter (\<lambda>p. strip p \<noteq> []) (split_char CHR '';'' s))
              in join '' and '' parts)
           else
             (let comma_tokens = map strip (split_char CHR '','' s)
              in if length comma_tokens \<ge> 4 \<and> length comma_tokens mod 2 = 0 then
                   (let pairs = pair_up comma_tokens
                    in if pairs \<noteq> [] then join '' and '' pairs
                       else comma_count_heuristic s)
                 else comma_count_heuristic s))"

section \<open>The algorithm label matcher\<close>

lemma algo_step_eq:
  "algo_step tok found = found \<union> {key \<in> set ALGO_KEYS. algo_key_fires key (lower tok)}"
  unfolding algo_step_def Let_def ALGO_KEYS_def algo_key_fires_def
  by (auto split: if_splits)

lemma fold_algo_step_eq:
  "fold algo_step toks found =
     found \<union> {key \<in> set ALGO_KEYS. \<exists>tok \<in> set toks. algo_key_fires key (lower tok)}"
proof (induction toks arbitrary: found)
  case Nil
  then show ?case by simp
next
  case (Cons tok toks)
  have "fold algo_step (tok # toks) found = fold algo_step toks (algo_step tok found)"
    by simp
  also have "\<dots> = algo_step tok found \<union>
      {key \<in> set ALGO_KEYS. \<exists>t \<in> set toks. algo_key_fires key (lower t)}"
    by (rule Cons.IH)
  also have "\<dots> = found \<union>
      {key \<in> set ALGO_KEYS. \<exists>t \<in> set (tok # toks). algo_key_fires key (lower t)}"
    by (subst algo_step_eq) auto
  finally show ?case .
qed



section \<open>The SUT origin classifier\<close>

lemma fold_category_step:
  "fold (category_step lc) tests cats = cats \<union> {c. \<exists>t. (c, t) \<in> set tests \<and> t lc}"
  by (induction tests arbitrary: cats) (auto simp: category_step_def)

lemma fold_CATEGORY_TESTS:
  "fold (category_step lc) CATEGORY_TESTS {} =
     (if sir_test lc then {''SIR''} else {})
     \<union> (if defects4j_test lc then {''Defects4J''} else {})
     \<union> (if apache_test lc then {''Apache Projects''} else {})
     \<union> (if industrial_test lc then {''Industrial / Proprietary''} else {})
     \<union> (if other_public_test lc then {''Other Public Repositories''} else {})"
  unfolding CATEGORY_TESTS_def category_step_def by auto

lemma categorize_sut_tokens_in_order:
  "categorize_sut_tokens tokens = categorize_in_order CATEGORY_TESTS tokens"
proof -
  define lc where "lc = map to_lc tokens"
  have "categorize_sut_tokens tokens =
     (let cats = (if sir_test lc then {''SIR''} else {})
         \<union> (if defects4j_test lc then {''Defects4J''} else {})
         \<union> (if apache_test lc then {''Apache Projects''} else {})
         \<union> (if industrial_test lc then {''Industrial / Proprietary''} else {})
         \<union> (if other_public_test lc then {''Other Public Repositories''} else {})
      in if cats = {} \<and> lc \<noteq> [] then insert ''Other Public Repositories'' cats else cats)"
    unfolding categorize_sut_tokens_def Let_def lc_def [symmetric]
      sir_test_def [symmetric] defects4j_test_def [symmetric] apache_test_def [symmetric]
      industrial_test_def [symmetric] other_public_test_def [symmetric]
    by (cases "sir_test lc"; cases "defects4j_test lc"; cases "apache_test lc";
        cases "industrial_test lc"; cases "other_public_test lc") (simp_all add: insert_commute)
  then show ?thesis
    unfolding categorize_in_order_def Let_def lc_def [symmetric] fold_CATEGORY_TESTS .
qed

lemma categorize_in_order_fired:
  "categorize_in_order tests tokens =
     (let fired = {c. \<exists>t. (c, t) \<in> set tests \<and> t (map to_lc tokens)}
      in if fired = {} \<and> tokens \<noteq> [] then {''Other Public Repositories''} else fired)"
proof -
  define fired where "fired = {c. \<exists>t. (c, t) \<in> set tests \<and> t (map to_lc tokens)}"
  have f: "fold (category_step (map to_lc tokens)) tests {} = fired"
    unfolding fold_category_step fired_def by simp
  have "categorize_in_order tests tokens =
      (if fired = {} \<and> tokens \<noteq> [] then insert ''Other Public Repositories'' fired else fired)"
    unfolding categorize_in_order_def Let_def f by simp
  also have "\<dots> = (if fired = {} \<and> tokens \<noteq> [] then {''Other Public Repositories''} else fired)"
    by (cases "fired = {}") simp_all
  finally show ?thesis unfolding fired_def Let_def .
qed

lemma categorize_in_order_perm:
  assumes "set tests' = set tests"
  shows "categorize_in_order tests' tokens = categorize_in_order tests tokens"
  unfolding categorize_in_order_fired assms ..

text \<open>
  Claim C7. For every non-empty token list, \<open>categorize_sut_tokens\<close> returns a non-empty
  set of categories. The five membership tests are independent: running them in any order
  gives the same set, which holds every category whose test fired (possibly several); if no
  test fired, the set is the single category \<open>Other Public Repositories\<close>.
\<close>

theorem categorize_sut_tokens_nonempty:
  "tokens \<noteq> [] \<Longrightarrow>
     categorize_sut_tokens tokens \<noteq> {}
   \<and> (\<forall>tests'. mset tests' = mset CATEGORY_TESTS \<longrightarrow>
         categorize_in_order tests' tokens = categorize_sut_tokens tokens)
   \<and> categorize_sut_tokens tokens =
       (let fired = {c. \<exists>t. (c, t) \<in> set CATEGORY_TESTS \<and> t (map to_lc tokens)}
        in if fired = {} then {''Other Public Repositories''} else fired)"
proof -
  assume ne: "tokens \<noteq> []"
  have a: "categorize_sut_tokens tokens =
       (let fired = {c. \<exists>t. (c, t) \<in> set CATEGORY_TESTS \<and> t (map to_lc tokens)}
        in if fired = {} then {''Other Public Repositories''} else fired)"
    unfolding categorize_sut_tokens_in_order categorize_in_order_fired using ne by simp
  have b: "categorize_sut_tokens tokens \<noteq> {}"
    unfolding a Let_def by simp
  have c: "\<forall>tests'. mset tests' = mset CATEGORY_TESTS \<longrightarrow>
         categorize_in_order tests' tokens = categorize_sut_tokens tokens"
  proof (intro allI impI)
    fix tests' :: "(string \<times> (string list \<Rightarrow> bool)) list"
    assume "mset tests' = mset CATEGORY_TESTS"
    then have "set tests' = set CATEGORY_TESTS" by (rule mset_eq_setD)
    then show "categorize_in_order tests' tokens = categorize_sut_tokens tokens"
      unfolding categorize_sut_tokens_in_order by (rule categorize_in_order_perm)
  qed
  from a b c show ?thesis by blast
qed

theorem categorize_sut_tokens_nonempty_witness:
  "[''My Tool''] \<noteq> []
   \<and> categorize_sut_tokens [''My Tool''] \<noteq> {}
   \<and> categorize_in_order (rev CATEGORY_TESTS) [''My Tool''] = categorize_sut_tokens [''My Tool'']
   \<and> categorize_sut_tokens [''My Tool''] = {''Other Public Repositories''}
   \<and> categorize_sut_tokens [''Apache Ant'', ''Siemens'']
        = {''SIR'', ''Apache Projects'', ''Industrial / Proprietary''}"
proof -
  have ne: "[''My Tool''] \<noteq> []" by simp
  note t = categorize_sut_tokens_nonempty [OF ne]
  have p: "mset (rev CATEGORY_TESTS) = mset CATEGORY_TESTS" by simp
  have v: "categorize_sut_tokens [''My Tool''] = {''Other Public Repositories''}" by code_simp
  have w: "categorize_sut_tokens [''Apache Ant'', ''Siemens'']
        = {''SIR'', ''Apache Projects'', ''Industrial / Proprietary''}" by code_simp
  from t p v w ne show ?thesis by blast
qed

section \<open>The metric and taxonomy matchers\<close>

lemma first_match_iff: "first_match regex_list lt \<longleftrightarrow> (\<exists>rgx \<in> set regex_list. re_search rgx lt)"
  by (induction regex_list) auto

lemma fold_canon_step:
  "fold (canon_step lt) compiled (found, matched_any) =
     (found \<union> canon_labels compiled lt, matched_any \<or> canon_labels compiled lt \<noteq> {})"
proof (induction compiled arbitrary: found matched_any)
  case Nil
  then show ?case by (simp add: canon_labels_def)
next
  case (Cons entry compiled)
  obtain canon regex_list where e: "entry = (canon, regex_list)" by (cases entry)
  show ?case
  proof (cases "first_match regex_list lt")
    case True
    then have "fold (canon_step lt) (entry # compiled) (found, matched_any) =
        fold (canon_step lt) compiled (insert canon found, True)"
      by (simp add: canon_step_def e)
    also have "\<dots> = (insert canon found \<union> canon_labels compiled lt, True)"
      by (simp add: Cons.IH)
    also have "\<dots> = (found \<union> canon_labels (entry # compiled) lt,
        matched_any \<or> canon_labels (entry # compiled) lt \<noteq> {})"
      using True by (simp add: canon_labels_def e first_match_iff)
    finally show ?thesis .
  next
    case False
    then have "fold (canon_step lt) (entry # compiled) (found, matched_any) =
        fold (canon_step lt) compiled (found, matched_any)"
      by (simp add: canon_step_def e)
    also have "\<dots> = (found \<union> canon_labels compiled lt,
        matched_any \<or> canon_labels compiled lt \<noteq> {})"
      by (rule Cons.IH)
    also have "\<dots> = (found \<union> canon_labels (entry # compiled) lt,
        matched_any \<or> canon_labels (entry # compiled) lt \<noteq> {})"
      using False by (simp add: canon_labels_def e first_match_iff)
    finally show ?thesis .
  qed
qed

lemma metric_token_step_eq:
  "metric_token_step compiled other_compiled tok found =
     found \<union> token_labels compiled other_compiled (lower tok)"
  unfolding metric_token_step_def Let_def fold_canon_step token_labels_def first_match_iff
  by auto

lemma fold_metric_token_step:
  "fold (metric_token_step compiled other_compiled) toks found =
     found \<union> (\<Union>tok \<in> set toks. token_labels compiled other_compiled (lower tok))"
proof (induction toks arbitrary: found)
  case Nil
  then show ?case by simp
next
  case (Cons tok toks)
  have "fold (metric_token_step compiled other_compiled) (tok # toks) found =
      fold (metric_token_step compiled other_compiled) toks
        (metric_token_step compiled other_compiled tok found)"
    by simp
  also have "\<dots> = metric_token_step compiled other_compiled tok found \<union>
      (\<Union>t \<in> set toks. token_labels compiled other_compiled (lower t))"
    by (rule Cons.IH)
  also have "\<dots> = found \<union>
      (\<Union>t \<in> set (tok # toks). token_labels compiled other_compiled (lower t))"
    by (subst metric_token_step_eq) auto
  finally show ?case .
qed

lemma normalize_metrics_eq:
  "normalize_metrics compiled other_compiled c =
     (if is_empty c then {}
      else \<Union>tok \<in> set (py_or (split_multi (CText (cell_str c))) [cell_str c]).
             token_labels compiled other_compiled (lower tok))"
  unfolding normalize_metrics_def Let_def fold_metric_token_step by simp

lemma token_labels_subset:
  "token_labels compiled other_compiled lt \<subseteq> insert ''Other'' (set (map fst compiled))"
  unfolding token_labels_def canon_labels_def Let_def by auto

lemma normalize_metrics_subset:
  "normalize_metrics compiled other_compiled c \<subseteq> insert ''Other'' (set (map fst compiled))"
  unfolding normalize_metrics_eq using token_labels_subset by (auto split: if_splits)

lemma fold_taxonomy_keys:
  "fold (\<lambda>key found. if str_in key lt then insert key found else found) tax_keys found =
     found \<union> {key \<in> set tax_keys. str_in key lt}"
  by (induction tax_keys arbitrary: found) auto

lemma match_taxonomy_labels_keys_eq:
  "match_taxonomy_labels_keys tax_keys c =
     {key \<in> set tax_keys. \<exists>tok \<in> set (matcher_tokens c). str_in key (lower tok)}"
proof -
  have "fold (\<lambda>tok found.
             let lt = lower tok
             in fold (\<lambda>key found. if str_in key lt then insert key found else found)
                  tax_keys found) toks found =
        found \<union> {key \<in> set tax_keys. \<exists>tok \<in> set toks. str_in key (lower tok)}"
    for toks found
    by (induction toks arbitrary: found) (auto simp: Let_def fold_taxonomy_keys)
  then show ?thesis unfolding match_taxonomy_labels_keys_def by simp
qed

lemma canon_labels_iff:
  "l \<in> canon_labels compiled lt \<longleftrightarrow>
     (\<exists>pats. (l, pats) \<in> set compiled \<and> (\<exists>rgx \<in> set pats. re_search rgx lt))"
  unfolding canon_labels_def by force

lemma canon_labels_empty_iff:
  "canon_labels compiled lt = {} \<longleftrightarrow>
     (\<forall>entry \<in> set compiled. \<forall>rgx \<in> set (snd entry). \<not> re_search rgx lt)"
  unfolding canon_labels_def by (auto simp: filter_empty_conv)

lemma token_labels_canon:
  "l \<noteq> ''Other'' \<Longrightarrow>
     l \<in> token_labels compiled other_compiled lt \<longleftrightarrow> l \<in> canon_labels compiled lt"
  unfolding token_labels_def Let_def by auto

lemma token_labels_other:
  assumes "''Other'' \<notin> set (map fst compiled)"
  shows "''Other'' \<in> token_labels compiled other_compiled lt \<longleftrightarrow>
     canon_labels compiled lt = {} \<and> (\<exists>rgx \<in> set other_compiled. re_search rgx lt)"
proof -
  have "''Other'' \<notin> canon_labels compiled lt"
    using assms unfolding canon_labels_def by auto
  then show ?thesis unfolding token_labels_def Let_def by auto
qed

lemma PRIO_no_Other: "''Other'' \<notin> set (map fst PRIO_COMPILED)"
  unfolding PRIO_COMPILED_def by simp

lemma SEL_no_Other: "''Other'' \<notin> set (map fst SEL_COMPILED)"
  unfolding SEL_COMPILED_def by simp

text \<open>
  Claim C2. For every metrics cell, the metric matcher returns the union over the tokens of
  the cell of the labels of each token. A canonical label belongs to a token exactly when
  one of that label's own patterns matches it, whatever the other labels do, so a token
  can carry several canonical labels. \<open>Other\<close> belongs to a token exactly when no
  canonical pattern matches it and some other-hint does; a token that matches neither
  contributes nothing. This holds for the prioritization and for the selection tables.
\<close>

theorem metric_matcher_label_by_label:
  "normalize_metrics_for_prioritization c =
     (if is_empty c then {}
      else \<Union>tok \<in> set (py_or (split_multi (CText (cell_str c))) [cell_str c]).
             token_labels PRIO_COMPILED PRIO_OTHER_COMPILED (lower tok))
   \<and> normalize_metrics_for_selection c =
     (if is_empty c then {}
      else \<Union>tok \<in> set (py_or (split_multi (CText (cell_str c))) [cell_str c]).
             token_labels SEL_COMPILED SEL_OTHER_COMPILED (lower tok))
   \<and> (l \<noteq> ''Other'' \<longrightarrow>
        (l \<in> token_labels PRIO_COMPILED PRIO_OTHER_COMPILED lt \<longleftrightarrow>
           (\<exists>pats. (l, pats) \<in> set PRIO_COMPILED \<and> (\<exists>rgx \<in> set pats. re_search rgx lt))))
   \<and> (l \<noteq> ''Other'' \<longrightarrow>
        (l \<in> token_labels SEL_COMPILED SEL_OTHER_COMPILED lt \<longleftrightarrow>
           (\<exists>pats. (l, pats) \<in> set SEL_COMPILED \<and> (\<exists>rgx \<in> set pats. re_search rgx lt))))
   \<and> (''Other'' \<in> token_labels PRIO_COMPILED PRIO_OTHER_COMPILED lt \<longleftrightarrow>
        (\<forall>entry \<in> set PRIO_COMPILED. \<forall>rgx \<in> set (snd entry). \<not> re_search rgx lt)
        \<and> (\<exists>rgx \<in> set PRIO_OTHER_COMPILED. re_search rgx lt))
   \<and> (''Other'' \<in> token_labels SEL_COMPILED SEL_OTHER_COMPILED lt \<longleftrightarrow>
        (\<forall>entry \<in> set SEL_COMPILED. \<forall>rgx \<in> set (snd entry). \<not> re_search rgx lt)
        \<and> (\<exists>rgx \<in> set SEL_OTHER_COMPILED. re_search rgx lt))
   \<and> token_labels PRIO_COMPILED PRIO_OTHER_COMPILED ''apfd fdr''
        = {''APFD/NAPFD'', ''Number of Faults Detected / FDR''}
   \<and> token_labels SEL_COMPILED SEL_OTHER_COMPILED ''recall time''
        = {''Time-Based'', ''Precision/Recall/F-Measure''}"
proof -
  have n1: "normalize_metrics_for_prioritization c =
     (if is_empty c then {}
      else \<Union>tok \<in> set (py_or (split_multi (CText (cell_str c))) [cell_str c]).
             token_labels PRIO_COMPILED PRIO_OTHER_COMPILED (lower tok))"
    unfolding normalize_metrics_for_prioritization_def by (rule normalize_metrics_eq)
  have n2: "normalize_metrics_for_selection c =
     (if is_empty c then {}
      else \<Union>tok \<in> set (py_or (split_multi (CText (cell_str c))) [cell_str c]).
             token_labels SEL_COMPILED SEL_OTHER_COMPILED (lower tok))"
    unfolding normalize_metrics_for_selection_def by (rule normalize_metrics_eq)
  have c1: "l \<noteq> ''Other'' \<longrightarrow>
        (l \<in> token_labels PRIO_COMPILED PRIO_OTHER_COMPILED lt \<longleftrightarrow>
           (\<exists>pats. (l, pats) \<in> set PRIO_COMPILED \<and> (\<exists>rgx \<in> set pats. re_search rgx lt)))"
    using token_labels_canon [of l PRIO_COMPILED PRIO_OTHER_COMPILED lt]
    unfolding canon_labels_iff by (rule impI)
  have c2: "l \<noteq> ''Other'' \<longrightarrow>
        (l \<in> token_labels SEL_COMPILED SEL_OTHER_COMPILED lt \<longleftrightarrow>
           (\<exists>pats. (l, pats) \<in> set SEL_COMPILED \<and> (\<exists>rgx \<in> set pats. re_search rgx lt)))"
    using token_labels_canon [of l SEL_COMPILED SEL_OTHER_COMPILED lt]
    unfolding canon_labels_iff by (rule impI)
  have o1: "''Other'' \<in> token_labels PRIO_COMPILED PRIO_OTHER_COMPILED lt \<longleftrightarrow>
        (\<forall>entry \<in> set PRIO_COMPILED. \<forall>rgx \<in> set (snd entry). \<not> re_search rgx lt)
        \<and> (\<exists>rgx \<in> set PRIO_OTHER_COMPILED. re_search rgx lt)"
    using token_labels_other [OF PRIO_no_Other, of PRIO_OTHER_COMPILED lt]
    unfolding canon_labels_empty_iff .
  have o2: "''Other'' \<in> token_labels SEL_COMPILED SEL_OTHER_COMPILED lt \<longleftrightarrow>
        (\<forall>entry \<in> set SEL_COMPILED. \<forall>rgx \<in> set (snd entry). \<not> re_search rgx lt)
        \<and> (\<exists>rgx \<in> set SEL_OTHER_COMPILED. re_search rgx lt)"
    using token_labels_other [OF SEL_no_Other, of SEL_OTHER_COMPILED lt]
    unfolding canon_labels_empty_iff .
  have e1: "token_labels PRIO_COMPILED PRIO_OTHER_COMPILED ''apfd fdr''
        = {''APFD/NAPFD'', ''Number of Faults Detected / FDR''}"
    by code_simp
  have e2: "token_labels SEL_COMPILED SEL_OTHER_COMPILED ''recall time''
        = {''Time-Based'', ''Precision/Recall/F-Measure''}"
    by code_simp
  from n1 n2 c1 c2 o1 o2 e1 e2 show ?thesis by (intro conjI)
qed

theorem metric_matcher_label_by_label_witness:
  "normalize_metrics_for_prioritization (CText ''APFD FDR; NDCG; foo'')
     = {''APFD/NAPFD'', ''Number of Faults Detected / FDR'', ''Other''}
   \<and> token_labels PRIO_COMPILED PRIO_OTHER_COMPILED ''ndcg'' = {''Other''}
   \<and> token_labels PRIO_COMPILED PRIO_OTHER_COMPILED ''foo'' = {}
   \<and> token_labels PRIO_COMPILED PRIO_OTHER_COMPILED ''ndcg apfd'' = {''APFD/NAPFD''}"
proof -
  let ?c = "CText ''APFD FDR; NDCG; foo''"
  have ne: "\<not> is_empty ?c" by code_simp
  have toks: "py_or (split_multi (CText (cell_str ?c))) [cell_str ?c] = [''APFD FDR'', ''NDCG'', ''foo'']"
    by code_simp
  have l1: "lower ''APFD FDR'' = ''apfd fdr''" by code_simp
  have l2: "lower ''NDCG'' = ''ndcg''" by code_simp
  have l3: "lower ''foo'' = ''foo''" by code_simp
  note t = metric_matcher_label_by_label [of ?c "''Other''" "''ndcg''"]
  have v1: "token_labels PRIO_COMPILED PRIO_OTHER_COMPILED ''apfd fdr''
        = {''APFD/NAPFD'', ''Number of Faults Detected / FDR''}"
    using t by (elim conjE)
  have v2: "token_labels PRIO_COMPILED PRIO_OTHER_COMPILED ''ndcg'' = {''Other''}" by code_simp
  have v3: "token_labels PRIO_COMPILED PRIO_OTHER_COMPILED ''foo'' = {}" by code_simp
  have v4: "token_labels PRIO_COMPILED PRIO_OTHER_COMPILED ''ndcg apfd'' = {''APFD/NAPFD''}"
    by code_simp
  have "normalize_metrics_for_prioritization ?c =
     (if is_empty ?c then {}
      else \<Union>tok \<in> set (py_or (split_multi (CText (cell_str ?c))) [cell_str ?c]).
             token_labels PRIO_COMPILED PRIO_OTHER_COMPILED (lower tok))"
    using t by (rule conjunct1)
  then have r: "normalize_metrics_for_prioritization ?c
     = {''APFD/NAPFD'', ''Number of Faults Detected / FDR'', ''Other''}"
    unfolding toks using ne by (auto simp: l1 l2 l3 v1 v2 v3)
  from r v2 v3 v4 show ?thesis by (intro conjI)
qed

section \<open>Closed enumerations and empty cells\<close>

lemma PRIO_COMPILED_keys: "insert ''Other'' (set (map fst PRIO_COMPILED)) = set PRIO_METRIC_CANON"
  unfolding PRIO_COMPILED_def PRIO_METRIC_CANON_def by auto

lemma SEL_COMPILED_keys: "insert ''Other'' (set (map fst SEL_COMPILED)) = set SEL_METRIC_CANON"
  unfolding SEL_COMPILED_def SEL_METRIC_CANON_def by auto

lemma categorize_sut_tokens_subset: "categorize_sut_tokens tokens \<subseteq> set CATEGORY_ORDER"
proof -
  have "{c. \<exists>t. (c, t) \<in> set CATEGORY_TESTS \<and> t lc} \<subseteq> set CATEGORY_ORDER" for lc
    unfolding CATEGORY_TESTS_def CATEGORY_ORDER_def by auto
  moreover have "''Other Public Repositories'' \<in> set CATEGORY_ORDER"
    unfolding CATEGORY_ORDER_def by simp
  ultimately show ?thesis
    unfolding categorize_sut_tokens_in_order categorize_in_order_fired Let_def
    by (auto split: if_splits)
qed

text \<open>
  Claim C10. Every classifier returns a subset of its closed enumeration, for every input:
  the taxonomy matcher a subset of its key list, the algorithm matcher a subset of
  \<open>heuristic, meta, graph, dynamic, ml, greedy\<close>, each metric matcher a subset of its
  canonical bucket list (with \<open>Other\<close>), and the SUT classifier a subset of the five
  categories of \<open>CATEGORY_ORDER\<close>.
\<close>

theorem classifiers_closed_enumerations:
  "match_taxonomy_labels c \<subseteq> set TAXONOMY_KEYS
   \<and> match_taxonomy_labels_keys tax_keys c \<subseteq> set tax_keys
   \<and> match_algorithm_labels c
        \<subseteq> {''heuristic'', ''meta'', ''graph'', ''dynamic'', ''ml'', ''greedy''}
   \<and> normalize_metrics_for_prioritization c \<subseteq> set PRIO_METRIC_CANON
   \<and> normalize_metrics_for_selection c \<subseteq> set SEL_METRIC_CANON
   \<and> categorize_sut_tokens tokens \<subseteq> set CATEGORY_ORDER"
proof -
  have t1: "match_taxonomy_labels_keys keys c \<subseteq> set keys" for keys
    unfolding match_taxonomy_labels_keys_eq by auto
  have t2: "match_taxonomy_labels c \<subseteq> set TAXONOMY_KEYS"
    unfolding match_taxonomy_labels_def by (rule t1)
  have a0: "match_algorithm_labels c \<subseteq> set ALGO_KEYS"
    unfolding match_algorithm_labels_def fold_algo_step_eq by auto
  have a1: "match_algorithm_labels c
        \<subseteq> {''heuristic'', ''meta'', ''graph'', ''dynamic'', ''ml'', ''greedy''}"
    using a0 unfolding ALGO_KEYS_def by simp
  have m1: "normalize_metrics_for_prioritization c \<subseteq> set PRIO_METRIC_CANON"
    unfolding normalize_metrics_for_prioritization_def PRIO_COMPILED_keys [symmetric]
    by (rule normalize_metrics_subset)
  have m2: "normalize_metrics_for_selection c \<subseteq> set SEL_METRIC_CANON"
    unfolding normalize_metrics_for_selection_def SEL_COMPILED_keys [symmetric]
    by (rule normalize_metrics_subset)
  from t1 [of tax_keys] t2 a1 m1 m2 categorize_sut_tokens_subset [of tokens]
  show ?thesis by (intro conjI)
qed

theorem classifiers_closed_enumerations_witness:
  "match_taxonomy_labels (CText ''Coverage-based / History'') \<subseteq> set TAXONOMY_KEYS
   \<and> match_taxonomy_labels (CText ''Coverage-based / History'') = {''coverage'', ''history''}
   \<and> match_algorithm_labels (CText ''Coverage-based / History'') = {}
   \<and> categorize_sut_tokens [''JMeter''] \<subseteq> set CATEGORY_ORDER
   \<and> categorize_sut_tokens [''JMeter''] = {''Apache Projects''}"
proof -
  note t = classifiers_closed_enumerations
             [of "CText ''Coverage-based / History''" "[]" "[''JMeter'']"]
  have s1: "match_taxonomy_labels (CText ''Coverage-based / History'') \<subseteq> set TAXONOMY_KEYS"
    using t by (rule conjunct1)
  have s2: "categorize_sut_tokens [''JMeter''] \<subseteq> set CATEGORY_ORDER"
    using t by (elim conjE)
  have v1: "match_taxonomy_labels (CText ''Coverage-based / History'') = {''coverage'', ''history''}"
    by code_simp
  have v2: "match_algorithm_labels (CText ''Coverage-based / History'') = {}"
    by code_simp
  have v3: "categorize_sut_tokens [''JMeter''] = {''Apache Projects''}"
    by code_simp
  from s1 v1 v2 s2 v3 show ?thesis by (intro conjI)
qed

lemma matcher_tokens_empty: "is_empty c \<Longrightarrow> matcher_tokens c = [[]]"
  unfolding matcher_tokens_def Let_def split_multi_def py_or_def
  by (simp add: strip_def lstrip_def rstrip_def)

text \<open>
  Claim C9. For an empty cell (\<open>None\<close>, NaN, or text that trims to the empty string) every
  label matcher returns the empty set. The taxonomy and algorithm matchers do run on the
  single empty token that the fallback \<open>split_multi(s) or [s]\<close> supplies, but no key is a
  substring of the empty string, and no metric pattern or other-hint matches it.
\<close>

theorem empty_cell_no_labels:
  "is_empty c \<Longrightarrow>
     matcher_tokens c = [[]]
   \<and> match_taxonomy_labels c = {}
   \<and> match_taxonomy_labels_keys PRIO_TAX_KEYS c = {}
   \<and> match_taxonomy_labels_keys SEL_TAX_KEYS c = {}
   \<and> match_algorithm_labels c = {}
   \<and> normalize_metrics_for_prioritization c = {}
   \<and> normalize_metrics_for_selection c = {}
   \<and> (\<forall>key \<in> set TAXONOMY_KEYS \<union> set PRIO_TAX_KEYS \<union> set SEL_TAX_KEYS \<union> set ALGO_KEYS
          \<union> {''machine learning''}. \<not> str_in key [])
   \<and> token_labels PRIO_COMPILED PRIO_OTHER_COMPILED [] = {}
   \<and> token_labels SEL_COMPILED SEL_OTHER_COMPILED [] = {}"
proof -
  assume e: "is_empty c"
  have toks: "matcher_tokens c = [[]]" using e by (rule matcher_tokens_empty)
  have keys: "\<forall>key \<in> set TAXONOMY_KEYS \<union> set PRIO_TAX_KEYS \<union> set SEL_TAX_KEYS \<union> set ALGO_KEYS
          \<union> {''machine learning''}. \<not> str_in key []"
    unfolding TAXONOMY_KEYS_def PRIO_TAX_KEYS_def SEL_TAX_KEYS_def ALGO_KEYS_def by simp
  have lw: "lower [] = []" by (simp add: lower_def)
  have t0: "match_taxonomy_labels c = {}"
    unfolding match_taxonomy_labels_def match_taxonomy_labels_keys_eq toks
    using keys by (auto simp: lw)
  have t1: "match_taxonomy_labels_keys PRIO_TAX_KEYS c = {}"
    unfolding match_taxonomy_labels_keys_eq toks using keys by (auto simp: lw)
  have t2: "match_taxonomy_labels_keys SEL_TAX_KEYS c = {}"
    unfolding match_taxonomy_labels_keys_eq toks using keys by (auto simp: lw)
  have a: "match_algorithm_labels c = {}"
    unfolding match_algorithm_labels_def fold_algo_step_eq toks algo_key_fires_def
    using keys by (auto simp: lw)
  have m1: "normalize_metrics_for_prioritization c = {}"
    unfolding normalize_metrics_for_prioritization_def normalize_metrics_def using e by simp
  have m2: "normalize_metrics_for_selection c = {}"
    unfolding normalize_metrics_for_selection_def normalize_metrics_def using e by simp
  have p1: "token_labels PRIO_COMPILED PRIO_OTHER_COMPILED [] = {}" by code_simp
  have p2: "token_labels SEL_COMPILED SEL_OTHER_COMPILED [] = {}" by code_simp
  from toks t0 t1 t2 a m1 m2 keys p1 p2 show ?thesis by (intro conjI)
qed

theorem empty_cell_no_labels_witness:
  "is_empty (CText ''   '') \<and> is_empty CNone \<and> is_empty CNaN
   \<and> matcher_tokens (CText ''   '') = [[]]
   \<and> match_taxonomy_labels (CText ''   '') = {}
   \<and> match_algorithm_labels CNone = {}
   \<and> normalize_metrics_for_prioritization CNaN = {}
   \<and> normalize_metrics_for_selection (CText ''   '') = {}"
proof -
  have e1: "is_empty (CText ''   '')" by code_simp
  have e2: "is_empty CNone" by simp
  have e3: "is_empty CNaN" by simp
  note t1 = empty_cell_no_labels [OF e1]
  note t2 = empty_cell_no_labels [OF e2]
  note t3 = empty_cell_no_labels [OF e3]
  have r1: "matcher_tokens (CText ''   '') = [[]]" using t1 by (elim conjE)
  have r2: "match_taxonomy_labels (CText ''   '') = {}" using t1 by (elim conjE)
  have r3: "match_algorithm_labels CNone = {}" using t2 by (elim conjE)
  have r4: "normalize_metrics_for_prioritization CNaN = {}" using t3 by (elim conjE)
  have r5: "normalize_metrics_for_selection (CText ''   '') = {}" using t1 by (elim conjE)
  from e1 e2 e3 r1 r2 r3 r4 r5 show ?thesis by (intro conjI)
qed

section \<open>Text lemmas\<close>

lemma strip_id:
  assumes "s \<noteq> []" "\<not> is_space (hd s)" "\<not> is_space (last s)"
  shows "strip s = s"
proof -
  from assms obtain c cs where s: "s = c # cs" by (cases s) auto
  with assms have l: "lstrip s = s" by (simp add: lstrip_def)
  from assms have "rev s \<noteq> []" "\<not> is_space (hd (rev s))" by (simp_all add: hd_rev)
  then have "dropWhile is_space (rev s) = rev s" by (cases "rev s") auto
  then show ?thesis by (simp add: strip_def l rstrip_def)
qed

lemma starts_with_iff: "starts_with p s \<longleftrightarrow> (\<exists>b. s = p @ b)"
  by (induction p s rule: starts_with.induct) auto

lemma str_in_iff: "str_in p s \<longleftrightarrow> (\<exists>a b. s = a @ p @ b)"
proof (induction s)
  case Nil
  then show ?case by auto
next
  case (Cons c cs)
  show ?case
  proof
    assume "str_in p (c # cs)"
    then consider "starts_with p (c # cs)" | "str_in p cs" by auto
    then show "\<exists>a b. c # cs = a @ p @ b"
    proof cases
      case 1
      then obtain b where "c # cs = p @ b" unfolding starts_with_iff ..
      then have "c # cs = [] @ p @ b" by simp
      then show ?thesis by blast
    next
      case 2
      then obtain a b where "cs = a @ p @ b" using Cons by blast
      then have "c # cs = (c # a) @ p @ b" by simp
      then show ?thesis by blast
    qed
  next
    assume "\<exists>a b. c # cs = a @ p @ b"
    then obtain a b where ab: "c # cs = a @ p @ b" by blast
    show "str_in p (c # cs)"
    proof (cases a)
      case Nil
      then have "starts_with p (c # cs)" using ab unfolding starts_with_iff by auto
      then show ?thesis by simp
    next
      case (Cons x a')
      then have "cs = a' @ p @ b" using ab by simp
      then have "str_in p cs" using Cons.IH by blast
      then show ?thesis by simp
    qed
  qed
qed

section \<open>The objective-count parser\<close>

lemma is_digit_not_space: "is_digit c \<Longrightarrow> \<not> is_space c"
  unfolding is_digit_def is_space_def Let_def by auto

lemma is_digit_not_int_space: "is_digit c \<Longrightarrow> \<not> is_int_space c"
  unfolding is_digit_def is_int_space_def Let_def by auto

lemma int_strip_id:
  assumes "s \<noteq> []" "\<not> is_int_space (hd s)" "\<not> is_int_space (last s)"
  shows "int_strip s = s"
proof -
  from assms obtain c cs where s: "s = c # cs" by (cases s) auto
  with assms have l: "dropWhile is_int_space s = s" by simp
  from assms have "rev s \<noteq> []" "\<not> is_int_space (hd (rev s))" by (simp_all add: hd_rev)
  then have "dropWhile is_int_space (rev s) = rev s" by (cases "rev s") auto
  then show ?thesis by (simp add: int_strip_def l)
qed

lemma digits_ok_all_digits: "s \<noteq> [] \<Longrightarrow> \<forall>c \<in> set s. is_digit c \<Longrightarrow> digits_ok s"
proof (induction s rule: digits_ok.induct)
  case 1
  then show ?case by simp
next
  case (2 c)
  then show ?case by simp
next
  case (3 c d cs)
  have "d \<noteq> CHR ''_''" using 3(4) by (auto simp: is_digit_def)
  then show ?case using 3 by simp
qed

text \<open>On a run of digits \<open>int\<close> depends on the length of the run only.\<close>

lemma py_int_all_digits:
  assumes "s \<noteq> []" "\<forall>c \<in> set s. is_digit c"
  shows "py_int s = (if length s > INT_MAX_STR_DIGITS then Inl ValueError
                     else Inr (int (digits_value 0 s)))"
proof -
  have h: "is_digit (hd s)" "is_digit (last s)" using assms by auto
  then have st: "int_strip s = s"
    using assms(1) by (intro int_strip_id) (auto dest: is_digit_not_int_space)
  obtain c cs where s: "s = c # cs" using assms(1) by (cases s) auto
  have sg: "c \<noteq> CHR ''-''" "c \<noteq> CHR ''+''" using h(1) s by (auto simp: is_digit_def)
  have f: "filter is_digit s = s" using assms(2) by simp
  have "py_int s = int_of_digits False s"
    unfolding py_int_def st Let_def using sg s by simp
  then show ?thesis
    unfolding int_of_digits_def f using digits_ok_all_digits [OF assms] by simp
qed

lemma py_int_digits:
  assumes "s \<noteq> []" "\<forall>c \<in> set s. is_digit c" "length s \<le> INT_MAX_STR_DIGITS"
  shows "py_int s = Inr (int (digits_value 0 s))"
  using py_int_all_digits [OF assms(1,2)] assms(3) by simp








subsection \<open>A run of nines\<close>







section \<open>Finalized paper lists\<close>

lemma is_digit_digit_char: "d < 10 \<Longrightarrow> is_digit (digit_char d)"
  unfolding is_digit_def digit_char_def Let_def by simp

lemma digit_val_digit_char: "d < 10 \<Longrightarrow> digit_val (digit_char d) = d"
  unfolding digit_val_def digit_char_def by simp

lemma is_digit_not_underscore: "is_digit c \<Longrightarrow> c \<noteq> CHR ''_''"
  by (auto simp: is_digit_def)

lemma str_nat_digits: "str_nat n \<noteq> [] \<and> (\<forall>c \<in> set (str_nat n). is_digit c)"
proof (induction n rule: str_nat.induct)
  case (1 n)
  show ?case
  proof (cases "n < 10")
    case True
    then show ?thesis by (subst (1 2) str_nat.simps) (simp add: is_digit_digit_char)
  next
    case False
    then have "\<forall>c \<in> set (str_nat (n div 10)). is_digit c" using 1 by simp
    moreover have "is_digit (digit_char (n mod 10))" by (rule is_digit_digit_char) simp
    ultimately show ?thesis using False by (subst (1 2) str_nat.simps) simp
  qed
qed

lemma digits_value_append:
  "digits_value acc (xs @ ys) = digits_value (digits_value acc xs) ys"
  by (induction xs arbitrary: acc) auto

lemma digits_value_str_nat: "digits_value 0 (str_nat n) = n"
proof (induction n rule: str_nat.induct)
  case (1 n)
  show ?case
  proof (cases "n < 10")
    case True
    then have "str_nat n = [digit_char n]" by (subst str_nat.simps) simp
    then show ?thesis
      using True by (simp add: digit_val_digit_char is_digit_not_underscore is_digit_digit_char)
  next
    case False
    then have s: "str_nat n = str_nat (n div 10) @ [digit_char (n mod 10)]"
      by (subst str_nat.simps) simp
    have m: "n mod 10 < 10" by simp
    have "digits_value 0 (str_nat n) = 10 * (n div 10) + n mod 10"
      unfolding s digits_value_append using 1 [OF False] m
      by (simp add: digit_val_digit_char is_digit_not_underscore is_digit_digit_char)
    then show ?thesis by simp
  qed
qed

lemma split_char_absent: "sep \<notin> set s \<Longrightarrow> split_char sep s = [s]"
  by (induction s) auto

lemma length_str_nat: "n < 10 ^ k \<Longrightarrow> 0 < k \<Longrightarrow> length (str_nat n) \<le> k"
proof (induction n arbitrary: k rule: str_nat.induct)
  case (1 n)
  show ?case
  proof (cases "n < 10")
    case True
    then have "str_nat n = [digit_char n]" by (subst str_nat.simps) simp
    then show ?thesis using 1(3) by simp
  next
    case False
    then have s: "str_nat n = str_nat (n div 10) @ [digit_char (n mod 10)]"
      by (subst str_nat.simps) simp
    obtain k' where k: "k = Suc k'" using 1(3) by (cases k) simp_all
    have "k' \<noteq> 0" using 1(2) False unfolding k by (cases k') simp_all
    moreover have "n div 10 < 10 ^ k'" using 1(2) unfolding k by (simp add: less_mult_imp_div_less mult.commute)
    ultimately have "length (str_nat (n div 10)) \<le> k'" using 1(1) [OF False, of k'] by simp
    then show ?thesis unfolding s k by simp
  qed
qed

lemma split_paper_id:
  "split_char CHR ''_'' (paper_id_from_index i) = [''paper'', str_nat (i + 1)]"
proof -
  have "CHR ''_'' \<notin> set (str_nat (i + 1))"
    using str_nat_digits [of "i + 1"] is_digit_not_underscore by blast
  then show ?thesis
    unfolding paper_id_from_index_def by (simp add: split_char_absent)
qed

lemma paper_key_paper_id:
  assumes "i + 1 < 10 ^ INT_MAX_STR_DIGITS"
  shows "paper_key (paper_id_from_index i) = Inr (int (i + 1))"
proof -
  have "length (str_nat (i + 1)) \<le> INT_MAX_STR_DIGITS"
    using assms by (rule length_str_nat) (simp add: INT_MAX_STR_DIGITS_def)
  then have "py_int (str_nat (i + 1)) = Inr (int (i + 1))"
    using py_int_digits [of "str_nat (i + 1)"] str_nat_digits [of "i + 1"]
    by (simp add: digits_value_str_nat)
  then show ?thesis unfolding paper_key_def split_paper_id by simp
qed

text \<open>The number after the underscore of a paper id, read without a limit.\<close>

lemma paper_number_paper_id:
  "int (digits_value 0 (drop 6 (paper_id_from_index i))) = int (i + 1)"
  unfolding paper_id_from_index_def by (simp add: digits_value_str_nat)

lemma inj_paper_id: "inj paper_id_from_index"
proof (rule injI)
  fix i j
  assume "paper_id_from_index i = paper_id_from_index j"
  then have "int (digits_value 0 (drop 6 (paper_id_from_index i)))
      = int (digits_value 0 (drop 6 (paper_id_from_index j)))" by simp
  then show "i = j" unfolding paper_number_paper_id by simp
qed

lemma remdups_map_inj: "inj f \<Longrightarrow> remdups (map f xs) = map f (remdups xs)"
  by (induction xs) (auto simp: inj_image_mem_iff)

lemma all_keys_map:
  "\<forall>x \<in> set xs. key x = Inr (k x) \<Longrightarrow> all_keys key xs = Inr (map k xs)"
  by (induction xs) auto

lemma insort_key_decorated:
  "insort_key fst (k x, x) (map (\<lambda>y. (k y, y)) ys) = map (\<lambda>y. (k y, y)) (insort_key k x ys)"
  by (induction ys) auto

lemma sort_key_decorated:
  "sort_key fst (map (\<lambda>y. (k y, y)) xs) = map (\<lambda>y. (k y, y)) (sort_key k xs)"
  by (induction xs) (auto simp: insort_key_decorated)

lemma py_sorted_by_total:
  assumes "\<forall>x \<in> set xs. key x = Inr (k x)"
  shows "py_sorted_by key xs = Inr (sort_key k xs)"
proof -
  have z: "zip (map k xs) xs = map (\<lambda>y. (k y, y)) xs"
    by (induction xs) auto
  have "py_sorted_by key xs = Inr (map snd (sort_key fst (zip (map k xs) xs)))"
    unfolding py_sorted_by_def all_keys_map [OF assms] by simp
  also have "map snd (sort_key fst (zip (map k xs) xs)) = sort_key k xs"
    unfolding z sort_key_decorated by (simp add: comp_def)
  finally show ?thesis .
qed

lemma sort_key_index:
  "sort_key paper_key_nat (map paper_id_from_index js) = map paper_id_from_index (sort js)"
  if "\<And>i. paper_key_nat (paper_id_from_index i) = int (i + 1)"
proof -
  have ins: "insort_key paper_key_nat (paper_id_from_index x) (map paper_id_from_index ys)
      = map paper_id_from_index (insort x ys)" for x ys
    by (induction ys) (auto simp: that)
  show ?thesis by (induction js) (auto simp: ins)
qed

lemma sort_key_paper_ids:
  "sort_key (\<lambda>x. int (digits_value 0 (drop 6 x))) (map paper_id_from_index js)
     = map paper_id_from_index (sort js)"
  by (rule sort_key_index) (rule paper_number_paper_id)

lemma py_sorted_by_paper_ids:
  assumes "\<forall>i \<in> set js. i + 1 < 10 ^ INT_MAX_STR_DIGITS"
  shows "py_sorted_by paper_key (map paper_id_from_index js)
           = Inr (map paper_id_from_index (sort js))"
proof -
  have "\<forall>x \<in> set (map paper_id_from_index js).
          paper_key x = Inr (int (digits_value 0 (drop 6 x)))"
    using assms by (auto simp: paper_key_paper_id paper_number_paper_id)
  from py_sorted_by_total [OF this] show ?thesis
    unfolding sort_key_paper_ids .
qed

lemma finalize_papers_ids:
  assumes "\<forall>i \<in> set idxs. i + 1 < 10 ^ INT_MAX_STR_DIGITS"
  shows "finalize_papers (map paper_id_from_index idxs)
           = Inr (map paper_id_from_index (sort (remdups idxs)))"
proof -
  have "\<forall>i \<in> set (remdups idxs). i + 1 < 10 ^ INT_MAX_STR_DIGITS" using assms by simp
  then show ?thesis
    unfolding finalize_papers_def remdups_map_inj [OF inj_paper_id]
    by (rule py_sorted_by_paper_ids)
qed

lemma py_sorted_by_any_enumeration:
  assumes "\<forall>i \<in> set idxs. i + 1 < 10 ^ INT_MAX_STR_DIGITS"
    and "distinct u" "set u = set (map paper_id_from_index idxs)"
  shows "py_sorted_by paper_key u = Inr (map paper_id_from_index (sort (remdups idxs)))"
proof -
  have "\<forall>y \<in> set u. \<exists>x. y = paper_id_from_index x" using assms(3) by auto
  then obtain js where u: "u = map paper_id_from_index js"
    unfolding ex_map_conv [symmetric] by blast
  have dj: "distinct js" using assms(2) unfolding u by (simp add: distinct_map)
  have "paper_id_from_index ` set js = paper_id_from_index ` set idxs"
    using assms(3) unfolding u by simp
  then have sj: "set js = set idxs" using inj_paper_id by (simp add: inj_image_eq_iff)
  have "sort js = sort (remdups idxs)"
    by (rule sorted_distinct_set_unique) (simp_all add: dj sj)
  moreover have "\<forall>i \<in> set js. i + 1 < 10 ^ INT_MAX_STR_DIGITS" using assms(1) sj by simp
  ultimately show ?thesis unfolding u using py_sorted_by_paper_ids [of js] by simp
qed

lemma length_str_nat_ge: "10 ^ k \<le> n \<Longrightarrow> k < length (str_nat n)"
proof (induction n arbitrary: k rule: str_nat.induct)
  case (1 n)
  show ?case
  proof (cases "n < 10")
    case True
    then have s: "str_nat n = [digit_char n]" by (subst str_nat.simps) simp
    have "k = 0"
    proof (rule ccontr)
      assume "k \<noteq> 0"
      then obtain k' where "k = Suc k'" by (cases k) simp_all
      then have "(10::nat) \<le> 10 ^ k" by simp
      then show False using 1(2) True by simp
    qed
    then show ?thesis unfolding s by simp
  next
    case False
    then have s: "str_nat n = str_nat (n div 10) @ [digit_char (n mod 10)]"
      by (subst str_nat.simps) simp
    show ?thesis
    proof (cases k)
      case 0
      then show ?thesis unfolding s by simp
    next
      case (Suc k')
      have "10 ^ k' \<le> n div 10" using 1(2) unfolding Suc by simp
      then have "k' < length (str_nat (n div 10))" using 1(1) [OF False, of k'] by simp
      then show ?thesis unfolding s Suc by simp
    qed
  qed
qed

lemma paper_key_paper_id_long:
  assumes "\<not> i + 1 < 10 ^ INT_MAX_STR_DIGITS"
  shows "paper_key (paper_id_from_index i) = Inl ValueError"
proof -
  have "10 ^ INT_MAX_STR_DIGITS \<le> i + 1" using assms by simp
  then have "INT_MAX_STR_DIGITS < length (str_nat (i + 1))" by (rule length_str_nat_ge)
  then have "py_int (str_nat (i + 1)) = Inl ValueError"
    using py_int_all_digits [of "str_nat (i + 1)"] str_nat_digits [of "i + 1"] by simp
  then show ?thesis unfolding paper_key_def split_paper_id by simp
qed

lemma all_keys_error:
  "\<forall>x \<in> set xs. key x = Inl e \<or> (\<exists>k. key x = Inr k) \<Longrightarrow> \<exists>x \<in> set xs. key x = Inl e
   \<Longrightarrow> all_keys key xs = Inl e"
proof (induction xs)
  case Nil
  then show ?case by simp
next
  case (Cons x xs)
  show ?case
  proof (cases "key x")
    case (Inl e')
    then have "e' = e" using Cons.prems(1) by auto
    then show ?thesis using Inl by simp
  next
    case (Inr k)
    then have "\<exists>x \<in> set xs. key x = Inl e" using Cons.prems(2) by auto
    moreover have "\<forall>x \<in> set xs. key x = Inl e \<or> (\<exists>k. key x = Inr k)" using Cons.prems(1) by simp
    ultimately have "all_keys key xs = Inl e" by (rule Cons.IH [rotated])
    then show ?thesis using Inr by simp
  qed
qed

lemma py_sorted_by_long:
  assumes "\<not> (\<forall>i \<in> set js. i + 1 < 10 ^ INT_MAX_STR_DIGITS)"
  shows "py_sorted_by paper_key (map paper_id_from_index js) = Inl ValueError"
proof -
  have "\<forall>x \<in> set (map paper_id_from_index js).
          paper_key x = Inl ValueError \<or> (\<exists>k. paper_key x = Inr k)"
  proof
    fix x
    assume "x \<in> set (map paper_id_from_index js)"
    then obtain i where x: "x = paper_id_from_index i" by auto
    show "paper_key x = Inl ValueError \<or> (\<exists>k. paper_key x = Inr k)"
    proof (cases "i + 1 < 10 ^ INT_MAX_STR_DIGITS")
      case True
      show ?thesis unfolding x paper_key_paper_id [OF True] by blast
    next
      case False
      show ?thesis unfolding x paper_key_paper_id_long [OF False] by blast
    qed
  qed
  moreover have "\<exists>x \<in> set (map paper_id_from_index js). paper_key x = Inl ValueError"
  proof -
    obtain i where i: "i \<in> set js" "\<not> i + 1 < 10 ^ INT_MAX_STR_DIGITS" using assms by blast
    have "paper_key (paper_id_from_index i) = Inl ValueError"
      using i(2) by (rule paper_key_paper_id_long)
    then show ?thesis using i(1) by auto
  qed
  ultimately have "all_keys paper_key (map paper_id_from_index js) = Inl ValueError"
    by (rule all_keys_error)
  then show ?thesis unfolding py_sorted_by_def by simp
qed

lemma finalize_papers_long:
  assumes "\<not> (\<forall>i \<in> set idxs. i + 1 < 10 ^ INT_MAX_STR_DIGITS)"
  shows "finalize_papers (map paper_id_from_index idxs) = Inl ValueError"
proof -
  have "\<not> (\<forall>i \<in> set (remdups idxs). i + 1 < 10 ^ INT_MAX_STR_DIGITS)" using assms by simp
  then show ?thesis
    unfolding finalize_papers_def remdups_map_inj [OF inj_paper_id]
    by (rule py_sorted_by_long)
qed

lemma py_sorted_by_any_enumeration_long:
  assumes "\<not> (\<forall>i \<in> set idxs. i + 1 < 10 ^ INT_MAX_STR_DIGITS)"
    and "set u = set (map paper_id_from_index idxs)"
  shows "py_sorted_by paper_key u = Inl ValueError"
proof -
  have "\<forall>y \<in> set u. \<exists>x. y = paper_id_from_index x" using assms(2) by auto
  then obtain js where u: "u = map paper_id_from_index js"
    unfolding ex_map_conv [symmetric] by blast
  have "paper_id_from_index ` set js = paper_id_from_index ` set idxs"
    using assms(2) unfolding u by simp
  then have sj: "set js = set idxs" using inj_paper_id by (simp add: inj_image_eq_iff)
  have "\<not> (\<forall>i \<in> set js. i + 1 < 10 ^ INT_MAX_STR_DIGITS)" using assms(1) unfolding sj .
  then show ?thesis unfolding u by (rule py_sorted_by_long)
qed

text \<open>
  Claim C4. A finalized list of paper ids holds every id once and is in ascending order
  of the integer after the underscore: for the ids of any list of row indices, the result
  is the ids of the distinct indices in ascending numeric order, and it is the same for
  every enumeration of the set being sorted. The order is numeric, not the order of the
  strings: \<open>paper_10\<close> comes after \<open>paper_9\<close> although it is the smaller string, and
  \<open>paper_10, paper_2, paper_1\<close> finalizes to \<open>paper_1, paper_2, paper_10\<close>. There is a
  list whenever \<open>int\<close> reads every paper number, that is, when each has at most 4300
  digits; a longer number makes the sort key raise \<open>ValueError\<close>, whatever the
  enumeration. The row index of a table is far below.
\<close>

theorem finalize_papers_sorted_unique:
  "finalize_papers (map paper_id_from_index idxs)
     = (if \<forall>i \<in> set idxs. i + 1 < 10 ^ INT_MAX_STR_DIGITS
        then Inr (map paper_id_from_index (sort (remdups idxs)))
        else Inl ValueError)
   \<and> distinct (map paper_id_from_index (sort (remdups idxs)))
   \<and> set (map paper_id_from_index (sort (remdups idxs))) = set (map paper_id_from_index idxs)
   \<and> map paper_key (map paper_id_from_index (sort (remdups idxs)))
        = map (\<lambda>i. if i + 1 < 10 ^ INT_MAX_STR_DIGITS then Inr (int (i + 1)) else Inl ValueError)
            (sort (remdups idxs))
   \<and> sorted_wrt (<) (map (\<lambda>i. int (i + 1)) (sort (remdups idxs)))
   \<and> (\<forall>u. distinct u \<and> set u = set (map paper_id_from_index idxs) \<longrightarrow>
          py_sorted_by paper_key u = finalize_papers (map paper_id_from_index idxs))
   \<and> finalize_papers [''paper_10'', ''paper_2'', ''paper_1'']
        = Inr [''paper_1'', ''paper_2'', ''paper_10'']
   \<and> finalize_papers [''paper_10'', ''paper_9'', ''paper_10''] = Inr [''paper_9'', ''paper_10'']
   \<and> ''paper_10'' < ''paper_9''"
proof -
  let ?js = "sort (remdups idxs)"
  let ?ok = "\<forall>i \<in> set idxs. i + 1 < 10 ^ INT_MAX_STR_DIGITS"
  have a: "finalize_papers (map paper_id_from_index idxs)
     = (if ?ok then Inr (map paper_id_from_index ?js) else Inl ValueError)"
  proof (cases ?ok)
    case True
    show ?thesis unfolding finalize_papers_ids [OF True] using True by (rule if_P [symmetric])
  next
    case False
    show ?thesis unfolding finalize_papers_long [OF False] using False by (rule if_not_P [symmetric])
  qed
  have b: "distinct (map paper_id_from_index ?js)"
    using inj_paper_id by (simp add: distinct_map inj_on_def inj_def)
  have c: "set (map paper_id_from_index ?js) = set (map paper_id_from_index idxs)"
    by simp
  have k: "paper_key (paper_id_from_index i)
      = (if i + 1 < 10 ^ INT_MAX_STR_DIGITS then Inr (int (i + 1)) else Inl ValueError)" for i
  proof (cases "i + 1 < 10 ^ INT_MAX_STR_DIGITS")
    case True
    show ?thesis unfolding paper_key_paper_id [OF True] using True by (rule if_P [symmetric])
  next
    case False
    show ?thesis unfolding paper_key_paper_id_long [OF False] using False
      by (rule if_not_P [symmetric])
  qed
  have d: "map paper_key (map paper_id_from_index ?js)
      = map (\<lambda>i. if i + 1 < 10 ^ INT_MAX_STR_DIGITS then Inr (int (i + 1)) else Inl ValueError) ?js"
    unfolding map_map comp_def k ..
  have "sorted_wrt (<) ?js"
    by (simp add: strict_sorted_iff)
  then have e: "sorted_wrt (<) (map (\<lambda>i. int (i + 1)) ?js)"
    by (simp add: sorted_wrt_map)
  have f: "\<forall>u. distinct u \<and> set u = set (map paper_id_from_index idxs) \<longrightarrow>
          py_sorted_by paper_key u = finalize_papers (map paper_id_from_index idxs)"
  proof (cases ?ok)
    case True
    show ?thesis
      unfolding finalize_papers_ids [OF True] using py_sorted_by_any_enumeration [OF True] by blast
  next
    case False
    show ?thesis
      unfolding finalize_papers_long [OF False]
      using py_sorted_by_any_enumeration_long [OF False] by blast
  qed
  have g: "finalize_papers [''paper_10'', ''paper_2'', ''paper_1'']
        = Inr [''paper_1'', ''paper_2'', ''paper_10'']"
    by code_simp
  have h: "finalize_papers [''paper_10'', ''paper_9'', ''paper_10''] = Inr [''paper_9'', ''paper_10'']"
    by code_simp
  have i: "''paper_10'' < ''paper_9''" by code_simp
  from a b c d e f g h i show ?thesis by (intro conjI)
qed

theorem finalize_papers_sorted_unique_witness:
  "finalize_papers [''paper_10'', ''paper_2'', ''paper_1'', ''paper_10'']
     = Inr [''paper_1'', ''paper_2'', ''paper_10'']
   \<and> py_sorted_by paper_key [''paper_2'', ''paper_10'', ''paper_1'']
     = Inr [''paper_1'', ''paper_2'', ''paper_10'']"
proof -
  have ids: "map paper_id_from_index [9, 1, 0, 9] = [''paper_10'', ''paper_2'', ''paper_1'', ''paper_10'']"
    by code_simp
  have srt: "map paper_id_from_index (sort (remdups [9, 1, 0, 9])) = [''paper_1'', ''paper_2'', ''paper_10'']"
    by code_simp
  have "(10::nat) ^ 2 \<le> 10 ^ INT_MAX_STR_DIGITS"
    by (rule power_increasing) (simp_all add: INT_MAX_STR_DIGITS_def)
  then have "(100::nat) \<le> 10 ^ INT_MAX_STR_DIGITS" by simp
  then have bound: "\<forall>i \<in> set [9, 1, 0, 9::nat]. i + 1 < 10 ^ INT_MAX_STR_DIGITS"
    by auto
  note t = finalize_papers_sorted_unique [of "[9, 1, 0, 9]", unfolded ids srt]
  have "finalize_papers [''paper_10'', ''paper_2'', ''paper_1'', ''paper_10'']
     = (if \<forall>i \<in> set [9, 1, 0, 9::nat]. i + 1 < 10 ^ INT_MAX_STR_DIGITS
        then Inr [''paper_1'', ''paper_2'', ''paper_10''] else Inl ValueError)"
    using t by (rule conjunct1)
  also have "\<dots> = Inr [''paper_1'', ''paper_2'', ''paper_10'']"
    using bound by (rule if_P)
  finally have r1: "finalize_papers [''paper_10'', ''paper_2'', ''paper_1'', ''paper_10'']
     = Inr [''paper_1'', ''paper_2'', ''paper_10'']" .
  have all: "\<forall>u. distinct u \<and> set u = set [''paper_10'', ''paper_2'', ''paper_1'', ''paper_10''] \<longrightarrow>
          py_sorted_by paper_key u = finalize_papers [''paper_10'', ''paper_2'', ''paper_1'', ''paper_10'']"
    using t by (elim conjE)
  have d: "distinct [''paper_2'', ''paper_10'', ''paper_1'']" by simp
  have s: "set [''paper_2'', ''paper_10'', ''paper_1'']
         = set [''paper_10'', ''paper_2'', ''paper_1'', ''paper_10'']" by auto
  have r2: "py_sorted_by paper_key [''paper_2'', ''paper_10'', ''paper_1'']
     = Inr [''paper_1'', ''paper_2'', ''paper_10'']"
    using all d s r1 by metis
  from r1 r2 show ?thesis by (intro conjI)
qed

section \<open>Print order of label pairs\<close>

lemma position_less: "position xs l = Some i \<Longrightarrow> i < length xs"
  by (induction xs arbitrary: i) (auto split: if_splits)

lemma position_None_iff: "position xs l = None \<longleftrightarrow> l \<notin> set xs"
  by (induction xs) auto

lemma fold_order_index:
  "distinct xs \<Longrightarrow>
   fold (\<lambda>entry d. d(snd entry \<mapsto> fst entry)) (enumerate n xs) d0 l =
     (case position xs l of Some i \<Rightarrow> Some (n + i) | None \<Rightarrow> d0 l)"
proof (induction xs arbitrary: n d0)
  case Nil
  then show ?case by simp
next
  case (Cons x xs)
  show ?case
  proof (cases "x = l")
    case True
    then have "position xs l = None" using Cons.prems by (simp add: position_None_iff)
    then show ?thesis using Cons True by simp
  next
    case False
    then show ?thesis using Cons by (simp split: option.splits)
  qed
qed

lemma order_index_position: "distinct enum \<Longrightarrow> order_index enum l = position enum l"
  unfolding order_index_def by (simp add: fold_order_index split: option.splits)

lemma metric_sort_key_le:
  assumes "distinct enum" "length enum \<le> 10 ^ 6"
    and "metric_sort_key enum x \<le> metric_sort_key enum y"
  shows "label_pair_before enum x y"
proof -
  have lt: "i < 10 ^ 6" if "position enum l = Some i" for l i
    using position_less [OF that] assms(2) by simp
  show ?thesis
  proof (cases "fst x < fst y")
    case True
    then show ?thesis by (simp add: label_pair_before_def)
  next
    case False
    then have eq: "fst x = fst y"
      and k: "(dict_get (order_index enum) (snd x) (10 ^ 6), snd x)
               \<le> (dict_get (order_index enum) (snd y) (10 ^ 6), snd y)"
      using assms(3) unfolding metric_sort_key_def less_eq_prod_simp by auto
    have "rank_before enum (snd x) (snd y)
        \<or> (position enum (snd x) = position enum (snd y) \<and> snd x \<le> snd y)"
    proof (cases "position enum (snd x)")
      case None
      show ?thesis
      proof (cases "position enum (snd y)")
        case n: None
        then show ?thesis
          using k None unfolding less_eq_prod_simp
          by (simp add: dict_get_def order_index_position [OF assms(1)])
      next
        case (Some j)
        then show ?thesis
          using k None lt [OF Some] unfolding less_eq_prod_simp
          by (simp add: dict_get_def order_index_position [OF assms(1)])
      qed
    next
      case (Some i)
      show ?thesis
      proof (cases "position enum (snd y)")
        case None
        then show ?thesis using Some by (simp add: rank_before_def)
      next
        case s: (Some j)
        then show ?thesis
          using k Some unfolding less_eq_prod_simp
          by (auto simp: dict_get_def order_index_position [OF assms(1)] rank_before_def)
      qed
    qed
    then show ?thesis using eq by (simp add: label_pair_before_def)
  qed
qed

lemma metric_print_order_sorted:
  assumes "distinct enum" "length enum \<le> 10 ^ 6"
  shows "sorted_wrt (label_pair_before enum) (metric_print_order enum m)"
proof -
  have "sorted (map (metric_sort_key enum) (sort_key (metric_sort_key enum) (map fst m)))"
    by (rule sorted_sort_key)
  then have "sorted_wrt (\<lambda>x y. metric_sort_key enum x \<le> metric_sort_key enum y)
      (sort_key (metric_sort_key enum) (map fst m))"
    unfolding sorted_map .
  then have "sorted_wrt (label_pair_before enum) (sort_key (metric_sort_key enum) (map fst m))"
    by (rule sorted_wrt_mono_rel [rotated]) (rule metric_sort_key_le [OF assms])
  then show ?thesis
    unfolding metric_print_order_def Let_def by (rule sorted_wrt_filter)
qed

lemma metric_print_order_set:
  "set (metric_print_order enum m) = {k. \<exists>papers. map_of m k = Some papers \<and> papers \<noteq> []}"
proof -
  have "set (metric_print_order enum m) =
      {k \<in> fst ` set m. case map_of m k of Some papers \<Rightarrow> papers \<noteq> [] | None \<Rightarrow> False}"
    unfolding metric_print_order_def Let_def by simp
  also have "\<dots> = {k. \<exists>papers. map_of m k = Some papers \<and> papers \<noteq> []}"
  proof (intro set_eqI iffI)
    fix k
    assume "k \<in> {k \<in> fst ` set m. case map_of m k of Some papers \<Rightarrow> papers \<noteq> [] | None \<Rightarrow> False}"
    then show "k \<in> {k. \<exists>papers. map_of m k = Some papers \<and> papers \<noteq> []}"
      by (cases "map_of m k") simp_all
  next
    fix k
    assume "k \<in> {k. \<exists>papers. map_of m k = Some papers \<and> papers \<noteq> []}"
    then obtain papers where p: "map_of m k = Some papers" "papers \<noteq> []" by blast
    then have "(k, papers) \<in> set m" by (simp add: map_of_SomeD)
    then have "k \<in> fst ` set m" by force
    then show "k \<in> {k \<in> fst ` set m. case map_of m k of Some papers \<Rightarrow> papers \<noteq> [] | None \<Rightarrow> False}"
      using p by simp
  qed
  finally show ?thesis .
qed

lemma algo_print_order_sorted:
  "sorted_wrt (\<lambda>x y. fst x < fst y \<or> (fst x = fst y \<and> snd x \<le> snd y)) (algo_print_order pm)"
proof -
  let ?pairs = "map fst (filter (\<lambda>entry. snd entry \<noteq> []) pm)"
  have "sorted (map (\<lambda>x. (fst x, snd x)) (sort_key (\<lambda>x. (fst x, snd x)) ?pairs))"
    by (rule sorted_sort_key)
  then have "sorted_wrt (\<lambda>x y. (fst x, snd x) \<le> (fst y, snd y))
      (sort_key (\<lambda>x. (fst x, snd x)) ?pairs)"
    unfolding sorted_map .
  then show ?thesis
    unfolding algo_print_order_def Let_def
    by (rule sorted_wrt_mono_rel [rotated]) auto
qed

lemma algo_print_order_set:
  "set (algo_print_order pm) = {k. \<exists>papers. (k, papers) \<in> set pm \<and> papers \<noteq> []}"
  unfolding algo_print_order_def Let_def by force

text \<open>
  Claim C3, as the code has it. The taxonomy and metric report prints its label pairs
  sorted by the first component alphabetically, then by the position of the metric in the
  declared order of its enumeration, a metric outside the enumeration after all declared
  ones, and alphabetically last; this holds for the prioritization and the selection
  enumeration. The taxonomy and algorithm report prints its label pairs sorted by the
  first component alphabetically and then by the second component alphabetically. Each
  report prints exactly the pairs whose paper list is not empty.
\<close>

theorem print_order_of_label_pairs:
  "sorted_wrt (label_pair_before PRIO_METRIC_CANON) (metric_print_order PRIO_METRIC_CANON m)
   \<and> sorted_wrt (label_pair_before SEL_METRIC_CANON) (metric_print_order SEL_METRIC_CANON m)
   \<and> set (metric_print_order enum m)
        = {k. \<exists>papers. map_of m k = Some papers \<and> papers \<noteq> []}
   \<and> sorted_wrt (\<lambda>x y. fst x < fst y \<or> (fst x = fst y \<and> snd x \<le> snd y))
        (algo_print_order pm)
   \<and> set (algo_print_order pm) = {k. \<exists>papers. (k, papers) \<in> set pm \<and> papers \<noteq> []}"
proof -
  have p: "distinct PRIO_METRIC_CANON" "length PRIO_METRIC_CANON \<le> 10 ^ 6"
    unfolding PRIO_METRIC_CANON_def by simp_all
  have s: "distinct SEL_METRIC_CANON" "length SEL_METRIC_CANON \<le> 10 ^ 6"
    unfolding SEL_METRIC_CANON_def by simp_all
  from metric_print_order_sorted [OF p] metric_print_order_sorted [OF s]
    metric_print_order_set algo_print_order_sorted algo_print_order_set
  show ?thesis by (intro conjI)
qed

theorem print_order_of_label_pairs_witness:
  "metric_print_order PRIO_METRIC_CANON
     [((''coverage'', ''Other''), [''paper_1'']),
      ((''coverage'', ''Zeta''), [''paper_1'']),
      ((''coverage'', ''Alpha''), [''paper_2'']),
      ((''coverage'', ''Execution Time''), [''paper_1'']),
      ((''cost'', ''Code-Coverage''), []),
      ((''cost'', ''APFD/NAPFD''), [''paper_3''])]
   = [(''cost'', ''APFD/NAPFD''), (''coverage'', ''Execution Time''), (''coverage'', ''Other''),
      (''coverage'', ''Alpha''), (''coverage'', ''Zeta'')]
   \<and> sorted_wrt (label_pair_before PRIO_METRIC_CANON)
       [(''cost'', ''APFD/NAPFD''), (''coverage'', ''Execution Time''), (''coverage'', ''Other''),
        (''coverage'', ''Alpha''), (''coverage'', ''Zeta'')]
   \<and> algo_print_order
       [((''coverage'', ''heuristic''), [''paper_1'']), ((''coverage'', ''greedy''), [''paper_1'']),
        ((''cost'', ''ml''), []), ((''cost'', ''meta''), [''paper_3''])]
     = [(''cost'', ''meta''), (''coverage'', ''greedy''), (''coverage'', ''heuristic'')]"
proof -
  let ?m = "[((''coverage'', ''Other''), [''paper_1'']),
      ((''coverage'', ''Zeta''), [''paper_1'']),
      ((''coverage'', ''Alpha''), [''paper_2'']),
      ((''coverage'', ''Execution Time''), [''paper_1'']),
      ((''cost'', ''Code-Coverage''), []),
      ((''cost'', ''APFD/NAPFD''), [''paper_3''])]"
  have v: "metric_print_order PRIO_METRIC_CANON ?m
     = [(''cost'', ''APFD/NAPFD''), (''coverage'', ''Execution Time''), (''coverage'', ''Other''),
        (''coverage'', ''Alpha''), (''coverage'', ''Zeta'')]"
    by (simp add: metric_print_order_def metric_sort_key_def dict_get_def order_index_def
          PRIO_METRIC_CANON_def enumerate_eq_zip)
  have "sorted_wrt (label_pair_before PRIO_METRIC_CANON) (metric_print_order PRIO_METRIC_CANON ?m)"
    using print_order_of_label_pairs [of ?m PRIO_METRIC_CANON "[]"] by (rule conjunct1)
  then have w: "sorted_wrt (label_pair_before PRIO_METRIC_CANON)
       [(''cost'', ''APFD/NAPFD''), (''coverage'', ''Execution Time''), (''coverage'', ''Other''),
        (''coverage'', ''Alpha''), (''coverage'', ''Zeta'')]"
    unfolding v .
  have a: "algo_print_order
       [((''coverage'', ''heuristic''), [''paper_1'']), ((''coverage'', ''greedy''), [''paper_1'']),
        ((''cost'', ''ml''), []), ((''cost'', ''meta''), [''paper_3''])]
     = [(''cost'', ''meta''), (''coverage'', ''greedy''), (''coverage'', ''heuristic'')]"
    by code_simp
  from v w a show ?thesis by (intro conjI)
qed

text \<open>
  The taxonomy and algorithm report does not follow the declared order of \<open>ALGO_KEYS\<close>:
  \<open>greedy\<close>, the last algorithm key, is printed before \<open>heuristic\<close>, the first one.
\<close>

theorem algorithm_report_order_counterexample:
  "algo_print_order
       [((''coverage'', ''heuristic''), [''paper_1'']), ((''coverage'', ''greedy''), [''paper_1''])]
     = [(''coverage'', ''greedy''), (''coverage'', ''heuristic'')]
   \<and> \<not> sorted_wrt (label_pair_before ALGO_KEYS)
         (algo_print_order
           [((''coverage'', ''heuristic''), [''paper_1'']),
            ((''coverage'', ''greedy''), [''paper_1''])])
   \<and> label_pair_before ALGO_KEYS (''coverage'', ''heuristic'') (''coverage'', ''greedy'')"
  by code_simp

section \<open>The author-list normalizer\<close>

text \<open>
  Claim C5, as the code has it. \<open>normalize_author_list\<close> takes the first branch that
  applies, in this order. An empty cell gives the empty string. Text with \<open>" and "\<close> is
  returned with its whitespace runs collapsed. Text with a semicolon is split on
  semicolons and joined with \<open>" and "\<close>. Text with at least four comma tokens, an even
  number of them, and at least one pair whose two halves are non-empty after trimming gives
  those pairs joined with \<open>" and "\<close>, pairs with an empty half being skipped. Every other
  text, also one whose pairs are all skipped, goes on to the comma-count heuristic: with
  at least three commas and more than one non-empty piece of the split, the pieces joined
  with \<open>" and "\<close>, and the trimmed text itself otherwise.
\<close>

theorem normalize_author_list_branches:
  "(is_empty raw \<longrightarrow> normalize_author_list raw = [])
   \<and> (\<not> is_empty raw \<and> str_in '' and '' (strip (cell_str raw)) \<longrightarrow>
        normalize_author_list raw = collapse_ws (strip (cell_str raw)))
   \<and> (\<not> is_empty raw \<and> \<not> str_in '' and '' (strip (cell_str raw))
        \<and> str_in '';'' (strip (cell_str raw)) \<longrightarrow>
        normalize_author_list raw =
          join '' and '' (map strip (filter (\<lambda>p. strip p \<noteq> [])
                                       (split_char CHR '';'' (strip (cell_str raw))))))
   \<and> (\<not> is_empty raw \<and> \<not> str_in '' and '' (strip (cell_str raw))
        \<and> \<not> str_in '';'' (strip (cell_str raw))
        \<and> length (split_char CHR '','' (strip (cell_str raw))) \<ge> 4
        \<and> even (length (split_char CHR '','' (strip (cell_str raw))))
        \<and> pair_up (map strip (split_char CHR '','' (strip (cell_str raw)))) \<noteq> [] \<longrightarrow>
        normalize_author_list raw =
          join '' and '' (pair_up (map strip (split_char CHR '','' (strip (cell_str raw))))))
   \<and> (\<not> is_empty raw \<and> \<not> str_in '' and '' (strip (cell_str raw))
        \<and> \<not> str_in '';'' (strip (cell_str raw))
        \<and> \<not> (length (split_char CHR '','' (strip (cell_str raw))) \<ge> 4
              \<and> even (length (split_char CHR '','' (strip (cell_str raw))))
              \<and> pair_up (map strip (split_char CHR '','' (strip (cell_str raw)))) \<noteq> []) \<longrightarrow>
        normalize_author_list raw = comma_count_heuristic (strip (cell_str raw)))
   \<and> comma_count_heuristic s =
        (if count_list s CHR '','' \<ge> 3
            \<and> length (filter (\<lambda>p. strip_commas (strip p) \<noteq> []) (split_author_commas s)) > 1
         then join '' and '' (map (\<lambda>p. strip_commas (strip p))
                 (filter (\<lambda>p. strip_commas (strip p) \<noteq> []) (split_author_commas s)))
         else s)
   \<and> normalize_author_list (CText ''Smith, J; Doe, A'') = ''Smith, J and Doe, A''
   \<and> normalize_author_list (CText ''Smith, John, Doe, Anna'') = ''Smith, John and Doe, Anna''
   \<and> normalize_author_list (CText ''Smith, John, Doe'') = ''Smith, John, Doe''
   \<and> normalize_author_list (CText ''SMITH, DOE, ROE, POE, LEE'')
        = ''SMITH and DOE and ROE and POE and LEE''"
proof -
  let ?s = "strip (cell_str raw)"
  let ?toks = "split_char CHR '','' ?s"
  have b1: "is_empty raw \<longrightarrow> normalize_author_list raw = []"
    by (simp add: normalize_author_list_def)
  have b2: "\<not> is_empty raw \<and> str_in '' and '' ?s \<longrightarrow>
        normalize_author_list raw = collapse_ws ?s"
    by (simp add: normalize_author_list_def Let_def)
  have b3: "\<not> is_empty raw \<and> \<not> str_in '' and '' ?s \<and> str_in '';'' ?s \<longrightarrow>
        normalize_author_list raw =
          join '' and '' (map strip (filter (\<lambda>p. strip p \<noteq> []) (split_char CHR '';'' ?s)))"
    by (simp add: normalize_author_list_def Let_def)
  have b4: "\<not> is_empty raw \<and> \<not> str_in '' and '' ?s \<and> \<not> str_in '';'' ?s
        \<and> length ?toks \<ge> 4 \<and> even (length ?toks)
        \<and> pair_up (map strip ?toks) \<noteq> [] \<longrightarrow>
        normalize_author_list raw = join '' and '' (pair_up (map strip ?toks))"
    by (simp add: normalize_author_list_def Let_def even_iff_mod_2_eq_zero)
  have b5: "\<not> is_empty raw \<and> \<not> str_in '' and '' ?s \<and> \<not> str_in '';'' ?s
        \<and> \<not> (length ?toks \<ge> 4 \<and> even (length ?toks) \<and> pair_up (map strip ?toks) \<noteq> []) \<longrightarrow>
        normalize_author_list raw = comma_count_heuristic ?s"
  proof
    assume a: "\<not> is_empty raw \<and> \<not> str_in '' and '' ?s \<and> \<not> str_in '';'' ?s
        \<and> \<not> (length ?toks \<ge> 4 \<and> even (length ?toks) \<and> pair_up (map strip ?toks) \<noteq> [])"
    then have n: "normalize_author_list raw =
        (if length ?toks \<ge> 4 \<and> length ?toks mod 2 = 0
         then (if pair_up (map strip ?toks) \<noteq> [] then join '' and '' (pair_up (map strip ?toks))
               else comma_count_heuristic ?s)
         else comma_count_heuristic ?s)"
      by (simp add: normalize_author_list_def Let_def)
    show "normalize_author_list raw = comma_count_heuristic ?s"
    proof (cases "length ?toks \<ge> 4 \<and> length ?toks mod 2 = 0")
      case True
      then have "pair_up (map strip ?toks) = []"
        using a by (simp add: even_iff_mod_2_eq_zero)
      then show ?thesis unfolding n by simp
    next
      case False
      show ?thesis unfolding n using False by (rule if_not_P)
    qed
  qed
  have b6: "comma_count_heuristic s =
        (if count_list s CHR '','' \<ge> 3
            \<and> length (filter (\<lambda>p. strip_commas (strip p) \<noteq> []) (split_author_commas s)) > 1
         then join '' and '' (map (\<lambda>p. strip_commas (strip p))
                 (filter (\<lambda>p. strip_commas (strip p) \<noteq> []) (split_author_commas s)))
         else s)"
    unfolding comma_count_heuristic_def Let_def by simp
  have e1: "normalize_author_list (CText ''Smith, J; Doe, A'') = ''Smith, J and Doe, A''"
    by code_simp
  have e2: "normalize_author_list (CText ''Smith, John, Doe, Anna'') = ''Smith, John and Doe, Anna''"
    by code_simp
  have e3: "normalize_author_list (CText ''Smith, John, Doe'') = ''Smith, John, Doe''"
    by code_simp
  have e4: "normalize_author_list (CText ''SMITH, DOE, ROE, POE, LEE'')
        = ''SMITH and DOE and ROE and POE and LEE''"
    by code_simp
  from b1 b2 b3 b4 b5 b6 e1 e2 e3 e4 show ?thesis by (intro conjI)
qed

theorem normalize_author_list_branches_witness:
  "normalize_author_list (CText ''Last, First, ,Ghost,Doe, Anna'') = ''Last, First and Doe, Anna''
   \<and> normalize_author_list (CText ''   '') = []
   \<and> normalize_author_list (CText '' A  and   B '') = ''A and B''
   \<and> normalize_author_list (CText '',,,'') = comma_count_heuristic '',,,''
   \<and> normalize_author_list (CText ''Smith, John, Doe'') = comma_count_heuristic ''Smith, John, Doe''
   \<and> comma_count_heuristic ''Smith, John, Doe'' = ''Smith, John, Doe''"
proof -
  let ?x1 = "''Last, First, ,Ghost,Doe, Anna''"
  have s1: "strip (cell_str (CText ?x1)) = ?x1" by code_simp
  have toks: "map strip (split_char CHR '','' ?x1)
      = [''Last'', ''First'', [], ''Ghost'', ''Doe'', ''Anna'']" by code_simp
  have len: "length (split_char CHR '','' ?x1) = 6" by code_simp
  have pu: "pair_up [''Last'', ''First'', [], ''Ghost'', ''Doe'', ''Anna'']
      = [''Last, First'', ''Doe, Anna'']" by code_simp
  have jn: "join '' and '' [''Last, First'', ''Doe, Anna''] = ''Last, First and Doe, Anna''"
    by simp
  have h1: "\<not> is_empty (CText ?x1)" "\<not> str_in '' and '' ?x1" "\<not> str_in '';'' ?x1"
    by code_simp+
  have g1: "(6::nat) \<ge> 4" "even (6::nat)"
    "[''Last, First'', ''Doe, Anna''] \<noteq> ([] :: string list)" by simp_all
  note t1 = normalize_author_list_branches [of "CText ?x1" "[]", unfolded s1 toks len pu jn]
  have i1: "\<not> is_empty (CText ?x1) \<and> \<not> str_in '' and '' ?x1 \<and> \<not> str_in '';'' ?x1
        \<and> (6::nat) \<ge> 4 \<and> even (6::nat)
        \<and> [''Last, First'', ''Doe, Anna''] \<noteq> ([] :: string list) \<longrightarrow>
        normalize_author_list (CText ?x1) = ''Last, First and Doe, Anna''"
    using t1 by (elim conjE)
  have w1: "normalize_author_list (CText ?x1) = ''Last, First and Doe, Anna''"
    using i1 h1 g1 by (elim impE) (intro conjI)
  have e: "is_empty (CText ''   '')" by code_simp
  have i2: "is_empty (CText ''   '') \<longrightarrow> normalize_author_list (CText ''   '') = []"
    using normalize_author_list_branches [of "CText ''   ''" "[]"] by (rule conjunct1)
  have w2: "normalize_author_list (CText ''   '') = []" using i2 e by (rule mp)
  let ?x3 = "''A  and   B''"
  have s3: "strip (cell_str (CText '' A  and   B '')) = ?x3" by code_simp
  have h3: "\<not> is_empty (CText '' A  and   B '')" "str_in '' and '' ?x3" by code_simp+
  have c3: "collapse_ws ?x3 = ''A and B''" by code_simp
  note t3 = normalize_author_list_branches [of "CText '' A  and   B ''" "[]", unfolded s3 c3]
  have i3: "\<not> is_empty (CText '' A  and   B '') \<and> str_in '' and '' ?x3 \<longrightarrow>
        normalize_author_list (CText '' A  and   B '') = ''A and B''"
    using t3 by (elim conjE)
  have w3: "normalize_author_list (CText '' A  and   B '') = ''A and B''"
    using i3 h3 by (elim impE) (intro conjI)
  let ?x4 = "'',,,''"
  have s4: "strip (cell_str (CText ?x4)) = ?x4" by code_simp
  have p4: "pair_up (map strip (split_char CHR '','' ?x4)) = []" by code_simp
  have h4: "\<not> is_empty (CText ?x4)" "\<not> str_in '' and '' ?x4" "\<not> str_in '';'' ?x4"
    by code_simp+
  have g4: "\<not> (length (split_char CHR '','' ?x4) \<ge> 4 \<and> even (length (split_char CHR '','' ?x4))
        \<and> ([] :: string list) \<noteq> [])" by blast
  note t4 = normalize_author_list_branches [of "CText ?x4" "[]", unfolded s4 p4]
  have i4: "\<not> is_empty (CText ?x4) \<and> \<not> str_in '' and '' ?x4 \<and> \<not> str_in '';'' ?x4
        \<and> \<not> (length (split_char CHR '','' ?x4) \<ge> 4 \<and> even (length (split_char CHR '','' ?x4))
              \<and> ([] :: string list) \<noteq> []) \<longrightarrow>
        normalize_author_list (CText ?x4) = comma_count_heuristic ?x4"
    using t4 by (elim conjE)
  have w4: "normalize_author_list (CText ?x4) = comma_count_heuristic ?x4"
    using i4 h4 g4 by (elim impE) (intro conjI)
  let ?x5 = "''Smith, John, Doe''"
  have s5: "strip (cell_str (CText ?x5)) = ?x5" by code_simp
  have l5: "length (split_char CHR '','' ?x5) = 3" by code_simp
  have h5: "\<not> is_empty (CText ?x5)" "\<not> str_in '' and '' ?x5" "\<not> str_in '';'' ?x5"
    by code_simp+
  have n34: "\<not> (3::nat) \<ge> 4" by simp
  have g5: "\<not> ((3::nat) \<ge> 4 \<and> even (3::nat)
        \<and> pair_up (map strip (split_char CHR '','' ?x5)) \<noteq> [])"
    using n34 by (rule contrapos_nn) (erule conjunct1)
  have c5: "count_list ?x5 CHR '','' = 2" by code_simp
  note t5 = normalize_author_list_branches [of "CText ?x5" ?x5, unfolded s5 l5 c5]
  have i5: "\<not> is_empty (CText ?x5) \<and> \<not> str_in '' and '' ?x5 \<and> \<not> str_in '';'' ?x5
        \<and> \<not> ((3::nat) \<ge> 4 \<and> even (3::nat)
              \<and> pair_up (map strip (split_char CHR '','' ?x5)) \<noteq> []) \<longrightarrow>
        normalize_author_list (CText ?x5) = comma_count_heuristic ?x5"
    using t5 by (elim conjE)
  have w5: "normalize_author_list (CText ?x5) = comma_count_heuristic ?x5"
    using i5 h5 g5 by (elim impE) (intro conjI)
  have i6: "comma_count_heuristic ?x5 =
        (if (2::nat) \<ge> 3
            \<and> length (filter (\<lambda>p. strip_commas (strip p) \<noteq> []) (split_author_commas ?x5)) > 1
         then join '' and '' (map (\<lambda>p. strip_commas (strip p))
                 (filter (\<lambda>p. strip_commas (strip p) \<noteq> []) (split_author_commas ?x5)))
         else ?x5)"
    using t5 by (elim conjE)
  have n23: "\<not> (2::nat) \<ge> 3" by simp
  have "\<not> ((2::nat) \<ge> 3
            \<and> length (filter (\<lambda>p. strip_commas (strip p) \<noteq> []) (split_author_commas ?x5)) > 1)"
    using n23 by (rule contrapos_nn) (erule conjunct1)
  then have w6: "comma_count_heuristic ?x5 = ?x5" unfolding i6 by (rule if_not_P)
  from w1 w2 w3 w4 w5 w6 show ?thesis by (intro conjI)
qed

text \<open>
  With four comma tokens that leave no pair, the result is not the empty join of the
  pairs: the guard \<open>if pairs:\<close> sends the text on to the comma-count heuristic, which
  returns \<open>,,,\<close> unchanged and turns \<open>A,,,B\<close> into \<open>A and B\<close>.
\<close>

theorem normalize_author_list_pairs_counterexample:
  "\<not> is_empty (CText '',,,'')
   \<and> \<not> str_in '' and '' (strip '',,,'')
   \<and> \<not> str_in '';'' (strip '',,,'')
   \<and> length (split_char CHR '','' (strip '',,,'')) = 4
   \<and> join '' and '' (pair_up (map strip (split_char CHR '','' (strip '',,,'')))) = []
   \<and> normalize_author_list (CText '',,,'') = '',,,''
   \<and> length (split_char CHR '','' (strip ''A,,,B'')) = 4
   \<and> join '' and '' (pair_up (map strip (split_char CHR '','' (strip ''A,,,B'')))) = []
   \<and> normalize_author_list (CText ''A,,,B'') = ''A and B''"
  by code_simp

section \<open>Normalizing twice\<close>

subsection \<open>Trimming\<close>

lemma rev_dropWhile_takeWhile:
  "xs = rev (dropWhile P (rev xs)) @ rev (takeWhile P (rev xs))"
proof -
  have "rev (rev (dropWhile P (rev xs)) @ rev (takeWhile P (rev xs))) = rev xs"
    by simp
  then show ?thesis by (simp only: rev_is_rev_conv)
qed

lemma strip_decompose:
  "\<exists>w1 w2. s = w1 @ strip s @ w2 \<and> (\<forall>c \<in> set w1. is_space c) \<and> (\<forall>c \<in> set w2. is_space c)"
proof -
  let ?t = "dropWhile is_space s"
  let ?w2 = "rev (takeWhile is_space (rev ?t))"
  have 1: "s = takeWhile is_space s @ ?t" by simp
  have 2: "?t = strip s @ ?w2"
    unfolding strip_def lstrip_def rstrip_def by (rule rev_dropWhile_takeWhile)
  have 3: "\<forall>c \<in> set (takeWhile is_space s). is_space c" by (auto dest: set_takeWhileD)
  have 4: "\<forall>c \<in> set ?w2. is_space c"
    by (auto dest: set_takeWhileD)
  from 1 2 have "s = takeWhile is_space s @ strip s @ ?w2"
    by metis
  with 3 4 show ?thesis by blast
qed

lemma strip_ends:
  assumes "strip s \<noteq> []"
  shows "\<not> is_space (hd (strip s))" "\<not> is_space (last (strip s))"
proof -
  let ?t = "dropWhile is_space s"
  let ?u = "dropWhile is_space (rev ?t)"
  have st: "strip s = rev ?u" by (simp add: strip_def lstrip_def rstrip_def)
  with assms have u: "?u \<noteq> []" by simp
  then have "\<not> is_space (hd ?u)" by (rule hd_dropWhile)
  then show "\<not> is_space (last (strip s))" unfolding st using u by (simp add: last_rev)
  have t: "?t \<noteq> []"
  proof
    assume e: "?t = []"
    have "?u = []" unfolding e by simp
    with u show False by contradiction
  qed
  then have h: "\<not> is_space (hd ?t)" by (rule hd_dropWhile)
  have "?t = strip s @ rev (takeWhile is_space (rev ?t))"
    unfolding st by (rule rev_dropWhile_takeWhile)
  then have "hd ?t = hd (strip s)" using assms by (metis hd_append2)
  then show "\<not> is_space (hd (strip s))" using h by simp
qed

lemma strip_strip: "strip (strip s) = strip s"
proof (cases "strip s = []")
  case True
  show ?thesis unfolding True by (simp add: strip_def lstrip_def rstrip_def)
next
  case False
  then show ?thesis by (intro strip_id strip_ends)
qed

lemma strip_middle:
  assumes "\<exists>c \<in> set a. \<not> is_space c" "\<exists>c \<in> set b. \<not> is_space c"
  shows "strip (a @ m @ b) = lstrip a @ m @ rstrip b"
proof -
  obtain x where x: "x \<in> set a" "\<not> is_space x" using assms(1) by blast
  obtain y where y: "y \<in> set (rev b)" "\<not> is_space y" using assms(2) by auto
  have l: "lstrip (a @ m @ b) = lstrip a @ m @ b"
    unfolding lstrip_def using x by (rule dropWhile_append1)
  have "rev (lstrip a @ m @ b) = rev b @ (rev m @ rev (lstrip a))" by simp
  then have "dropWhile is_space (rev (lstrip a @ m @ b))
      = dropWhile is_space (rev b) @ (rev m @ rev (lstrip a))"
    using dropWhile_append1 [of y "rev b" is_space "rev m @ rev (lstrip a)"] y by simp
  then show ?thesis unfolding strip_def l rstrip_def by simp
qed

subsection \<open>Collapsing whitespace\<close>

lemma collapse_ws_Cons:
  "collapse_ws (c # cs) =
     (if is_space c then
        (if cs \<noteq> [] \<and> is_space (hd cs) then collapse_ws cs else CHR '' '' # collapse_ws cs)
      else c # collapse_ws cs)"
  by (cases cs) simp_all

lemma is_space_space: "is_space CHR '' ''"
  by (simp add: is_space_def)

lemma collapse_ws_Nil_iff: "collapse_ws s = [] \<longleftrightarrow> s = []"
proof (induction s)
  case Nil
  then show ?case by simp
next
  case (Cons c cs)
  then show ?case unfolding collapse_ws_Cons by (auto simp del: collapse_ws.simps(2))
qed

lemma collapse_ws_hd_space:
  "s \<noteq> [] \<Longrightarrow> is_space (hd s) \<Longrightarrow> \<exists>r. collapse_ws s = CHR '' '' # r"
proof (induction s)
  case Nil
  then show ?case by simp
next
  case (Cons c cs)
  then show ?case unfolding collapse_ws_Cons by (auto simp del: collapse_ws.simps(2))
qed

lemma collapse_ws_hd:
  "s \<noteq> [] \<Longrightarrow> \<not> is_space (hd s) \<Longrightarrow> hd (collapse_ws s) = hd s"
  by (cases s) (simp_all add: collapse_ws_Cons del: collapse_ws.simps(2))

lemma collapse_ws_last:
  "s \<noteq> [] \<Longrightarrow> \<not> is_space (last s) \<Longrightarrow> last (collapse_ws s) = last s"
proof (induction s)
  case Nil
  then show ?case by simp
next
  case (Cons c cs)
  show ?case
  proof (cases "cs = []")
    case True
    then show ?thesis using Cons.prems by simp
  next
    case False
    then have "last (collapse_ws cs) = last cs" "collapse_ws cs \<noteq> []"
      using Cons by (simp_all add: collapse_ws_Nil_iff)
    then show ?thesis
      unfolding collapse_ws_Cons using False by (simp del: collapse_ws.simps(2))
  qed
qed

lemma collapse_ws_idem: "collapse_ws (collapse_ws s) = collapse_ws s"
proof (induction s)
  case Nil
  then show ?case by simp
next
  case (Cons c cs)
  show ?case
  proof (cases "is_space c")
    case False
    then show ?thesis using Cons unfolding collapse_ws_Cons [of c]
      by (simp add: collapse_ws_Cons del: collapse_ws.simps(2))
  next
    case True
    show ?thesis
    proof (cases "cs \<noteq> [] \<and> is_space (hd cs)")
      case t: True
      then show ?thesis using Cons True unfolding collapse_ws_Cons [of c cs]
        by (simp del: collapse_ws.simps(2))
    next
      case False
      have "cs = [] \<or> (cs \<noteq> [] \<and> \<not> is_space (hd cs))" using False by blast
      then show ?thesis
      proof
        assume "cs = []"
        then show ?thesis using True by (simp add: is_space_space)
      next
        assume a: "cs \<noteq> [] \<and> \<not> is_space (hd cs)"
        then have "collapse_ws cs \<noteq> []" "\<not> is_space (hd (collapse_ws cs))"
          by (simp_all add: collapse_ws_Nil_iff collapse_ws_hd)
        then have "collapse_ws (CHR '' '' # collapse_ws cs)
            = CHR '' '' # collapse_ws (collapse_ws cs)"
          unfolding collapse_ws_Cons [of "CHR '' ''"]
          by (simp add: is_space_space del: collapse_ws.simps(2))
        then show ?thesis
          using a True Cons unfolding collapse_ws_Cons [of c cs]
          by (simp del: collapse_ws.simps(2))
      qed
    qed
  qed
qed

lemma collapse_ws_append_nonspace:
  "\<not> is_space c \<Longrightarrow> collapse_ws (a @ c # b) = collapse_ws a @ c # collapse_ws b"
proof (induction a)
  case Nil
  then show ?case by (simp add: collapse_ws_Cons del: collapse_ws.simps(2))
next
  case (Cons x a)
  have h: "(a @ c # b \<noteq> [] \<and> is_space (hd (a @ c # b))) \<longleftrightarrow> (a \<noteq> [] \<and> is_space (hd a))"
    using Cons.prems by (cases a) auto
  have "collapse_ws ((x # a) @ c # b) = collapse_ws (x # (a @ c # b))" by simp
  also have "\<dots> = collapse_ws (x # a) @ c # collapse_ws b"
    unfolding collapse_ws_Cons [of x] h using Cons by (simp del: collapse_ws.simps(2))
  finally show ?case .
qed

lemma collapse_ws_snoc_space:
  "is_space w \<Longrightarrow> \<exists>r. collapse_ws (a @ [w]) = r @ '' ''"
proof (induction a)
  case Nil
  then show ?case by simp
next
  case (Cons x a)
  then obtain r where r: "collapse_ws (a @ [w]) = r @ '' ''" by blast
  have "collapse_ws ((x # a) @ [w]) = collapse_ws (x # (a @ [w]))" by simp
  also have "\<exists>r'. collapse_ws (x # (a @ [w])) = r' @ '' ''"
    unfolding collapse_ws_Cons [of x] r
    by (auto simp del: collapse_ws.simps intro: exI [of _ "_ # r"])
  finally show ?case .
qed

lemma collapse_ws_keeps_and:
  assumes "str_in '' and '' s"
  shows "str_in '' and '' (collapse_ws s)"
proof -
  obtain a b where s: "s = a @ '' and '' @ b" using assms unfolding str_in_iff by blast
  have na: "\<not> is_space CHR ''a''" "\<not> is_space CHR ''n''" "\<not> is_space CHR ''d''"
    by (simp_all add: is_space_def)
  have nd: "collapse_ws (''and '' @ b) = ''and'' @ collapse_ws (CHR '' '' # b)"
    using na by (simp add: collapse_ws_Cons del: collapse_ws.simps(2))
  have "s = (a @ '' '') @ CHR ''a'' # (''nd '' @ b)"
    unfolding s by simp
  then have "collapse_ws s = collapse_ws (a @ '' '') @ CHR ''a'' # collapse_ws (''nd '' @ b)"
    using collapse_ws_append_nonspace [OF na(1), of "a @ '' ''" "''nd '' @ b"] by simp
  also have "CHR ''a'' # collapse_ws (''nd '' @ b) = collapse_ws (''and '' @ b)"
    using na by (simp add: collapse_ws_Cons del: collapse_ws.simps(2))
  finally have c: "collapse_ws s = collapse_ws (a @ '' '') @ ''and'' @ collapse_ws (CHR '' '' # b)"
    unfolding nd .
  obtain r1 where r1: "collapse_ws (a @ '' '') = r1 @ '' ''"
    using collapse_ws_snoc_space [OF is_space_space] by blast
  obtain r2 where r2: "collapse_ws (CHR '' '' # b) = CHR '' '' # r2"
    using collapse_ws_hd_space [of "CHR '' '' # b"] is_space_space by auto
  have "collapse_ws s = r1 @ '' and '' @ r2" unfolding c r1 r2 by simp
  then show ?thesis unfolding str_in_iff by blast
qed

subsection \<open>Joined lists\<close>

lemma join_Cons: "join sep (p # ps) = (if ps = [] then p else p @ sep @ join sep ps)"
  by (cases ps) simp_all

lemma join_last:
  "parts \<noteq> [] \<Longrightarrow> \<forall>p \<in> set parts. p \<noteq> [] \<Longrightarrow>
     join sep parts \<noteq> [] \<and> last (join sep parts) = last (last parts)"
proof (induction parts)
  case Nil
  then show ?case by simp
next
  case (Cons p ps)
  show ?case
  proof (cases "ps = []")
    case True
    then show ?thesis using Cons.prems by simp
  next
    case False
    then have "join sep ps \<noteq> [] \<and> last (join sep ps) = last (last ps)"
      using Cons by simp
    then show ?thesis using False unfolding join_Cons by simp
  qed
qed

lemma join_hd:
  "parts \<noteq> [] \<Longrightarrow> hd parts \<noteq> [] \<Longrightarrow> hd (join sep parts) = hd (hd parts)"
  by (cases parts) (simp_all add: join_Cons del: join.simps)

lemma strip_join:
  assumes "parts \<noteq> []"
    and "\<forall>p \<in> set parts. p \<noteq> [] \<and> \<not> is_space (hd p) \<and> \<not> is_space (last p)"
  shows "strip (join sep parts) = join sep parts"
proof (rule strip_id)
  have ne: "\<forall>p \<in> set parts. p \<noteq> []" using assms(2) by blast
  show "join sep parts \<noteq> []" using join_last [OF assms(1) ne] by blast
  have "hd parts \<in> set parts" "last parts \<in> set parts" using assms(1) by simp_all
  then have h: "hd parts \<noteq> []" "\<not> is_space (hd (hd parts))" "\<not> is_space (last (last parts))"
    using assms(2) by blast+
  show "\<not> is_space (hd (join sep parts))"
    using join_hd [OF assms(1) h(1)] h(2) by simp
  show "\<not> is_space (last (join sep parts))"
    using join_last [OF assms(1) ne] h(3) by simp
qed

lemma pair_up_member:
  "x \<in> set (pair_up toks) \<Longrightarrow>
     \<exists>l f. l \<in> set toks \<and> f \<in> set toks \<and> l \<noteq> [] \<and> f \<noteq> [] \<and> x = l @ '', '' @ f"
proof (induction toks rule: pair_up.induct)
  case (1 l f toks)
  then show ?case by (auto split: if_splits)
qed simp_all

subsection \<open>The split of the comma-count heuristic\<close>

lemma split_author_commas_Cons:
  "split_author_commas (c # cs) =
     (if c = CHR '','' \<and> \<not> lookahead_lower cs then [] # split_author_commas cs
      else (c # hd (split_author_commas cs)) # tl (split_author_commas cs))"
proof -
  have "split_author_commas cs \<noteq> []" by (cases cs) (auto split: list.splits)
  then show ?thesis by (cases "split_author_commas cs") simp_all
qed

lemma split_author_commas_nonempty: "split_author_commas s \<noteq> []"
  by (cases s) (auto split: list.splits)

lemma split_author_commas_cut:
  "c = CHR '','' \<and> \<not> lookahead_lower cs \<Longrightarrow>
     split_author_commas (c # cs) = [] # split_author_commas cs"
  unfolding split_author_commas_Cons by (rule if_P)

lemma split_author_commas_keep:
  "\<not> (c = CHR '','' \<and> \<not> lookahead_lower cs) \<Longrightarrow>
     split_author_commas (c # cs)
       = (c # hd (split_author_commas cs)) # tl (split_author_commas cs)"
  unfolding split_author_commas_Cons by (rule if_not_P)

lemma lookahead_lower_hd: "lookahead_lower (hd (split_author_commas s)) = lookahead_lower s"
proof (induction s)
  case Nil
  then show ?case by simp
next
  case (Cons c cs)
  show ?case
  proof (cases "c = CHR '','' \<and> \<not> lookahead_lower cs")
    case True
    have c: "\<not> is_az CHR '',''" "\<not> is_AZ CHR '',''" by (simp_all add: is_az_def is_AZ_def)
    have "lookahead_lower (c # cs) = lookahead_lower cs" using True c by simp
    then show ?thesis unfolding split_author_commas_cut [OF True] using True by simp
  next
    case False
    have "lookahead_lower (c # hd (split_author_commas cs)) = lookahead_lower (c # cs)"
      using Cons by simp
    then show ?thesis unfolding split_author_commas_keep [OF False] by simp
  qed
qed

lemma comma_inside_piece:
  "p \<in> set (split_author_commas s) \<Longrightarrow> p = a @ CHR '','' # b \<Longrightarrow> lookahead_lower b"
proof (induction s arbitrary: p a)
  case Nil
  then show ?case by simp
next
  case (Cons c cs)
  let ?ps = "split_author_commas cs"
  have ne: "?ps \<noteq> []" by (rule split_author_commas_nonempty)
  show ?case
  proof (cases "c = CHR '','' \<and> \<not> lookahead_lower cs")
    case True
    have "p = [] \<or> p \<in> set ?ps"
      using Cons.prems(1) unfolding split_author_commas_cut [OF True] by simp
    then have "p \<in> set ?ps" using Cons.prems(2) by auto
    then show ?thesis using Cons.IH Cons.prems(2) by blast
  next
    case False
    have "p = c # hd ?ps \<or> p \<in> set (tl ?ps)"
      using Cons.prems(1) unfolding split_author_commas_keep [OF False] by simp
    then show ?thesis
    proof
      assume "p \<in> set (tl ?ps)"
      then have "p \<in> set ?ps" using ne by (auto dest: list.set_sel(2))
      then show ?thesis using Cons.IH Cons.prems(2) by blast
    next
      assume p: "p = c # hd ?ps"
      show ?thesis
      proof (cases a)
        case Nil
        then have "c = CHR '',''" "b = hd ?ps" using p Cons.prems(2) by simp_all
        then show ?thesis using False lookahead_lower_hd [of cs] by simp
      next
        case (Cons x a')
        then have "hd ?ps = a' @ CHR '','' # b" using p Cons.prems(2) by simp
        moreover have "hd ?ps \<in> set ?ps" using ne by simp
        ultimately show ?thesis using Cons.IH by blast
      qed
    qed
  qed
qed

lemma lookahead_lower_spaces: "\<forall>c \<in> set w. is_space c \<Longrightarrow> \<not> lookahead_lower w"
proof (induction w)
  case Nil
  then show ?case by simp
next
  case (Cons c w)
  then have "is_space c" by simp
  then have "\<not> is_az c" "\<not> is_AZ c" by (auto simp: is_space_def is_az_def is_AZ_def Let_def)
  then show ?case using Cons by simp
qed

lemma piece_not_ending_in_comma:
  assumes "p \<in> set (split_author_commas s)" "strip p \<noteq> []"
  shows "last (strip p) \<noteq> CHR '',''"
proof
  assume l: "last (strip p) = CHR '',''"
  obtain w1 w2 where d: "p = w1 @ strip p @ w2" "\<forall>c \<in> set w2. is_space c"
    using strip_decompose [of p] by blast
  have "strip p = butlast (strip p) @ [CHR '','']"
    using assms(2) l by (metis append_butlast_last_id)
  then have "p = (w1 @ butlast (strip p)) @ CHR '','' # w2"
    using d(1) by (metis append.assoc append_Cons append_Nil)
  then have "lookahead_lower w2" using comma_inside_piece [OF assms(1)] by blast
  then show False using lookahead_lower_spaces [OF d(2)] by simp
qed

lemma heuristic_part_last:
  assumes "p \<in> set (split_author_commas s)" "strip_commas (strip p) \<noteq> []"
  shows "\<not> is_space (last (strip_commas (strip p)))"
proof -
  define q where "q = strip p"
  define t where "t = dropWhile (\<lambda>c. c = CHR '','') q"
  have sc: "strip_commas q = rev (dropWhile (\<lambda>c. c = CHR '','') (rev t))"
    unfolding strip_commas_def t_def ..
  have t: "t \<noteq> []"
  proof
    assume "t = []"
    then have "strip_commas q = []" unfolding sc by simp
    then show False using assms(2) unfolding q_def by contradiction
  qed
  have q: "q \<noteq> []"
  proof
    assume "q = []"
    then have "t = []" unfolding t_def by simp
    then show False using t by contradiction
  qed
  have "last (takeWhile (\<lambda>c. c = CHR '','') q @ t) = last t" using t by (rule last_appendR)
  then have lt: "last t = last q" unfolding t_def by simp
  have "last q \<noteq> CHR '',''"
    using piece_not_ending_in_comma [OF assms(1)] q unfolding q_def by blast
  then have "hd (rev t) \<noteq> CHR '',''" using t lt by (simp add: hd_rev)
  moreover have "rev t \<noteq> []" using t by simp
  ultimately have "dropWhile (\<lambda>c. c = CHR '','') (rev t) = rev t"
    by (cases "rev t") simp_all
  then have "strip_commas q = t" unfolding sc by simp
  moreover have "\<not> is_space (last q)" using strip_ends(2) [of p] q unfolding q_def by blast
  ultimately show ?thesis using lt unfolding q_def by simp
qed

subsection \<open>Normalizing a normalized author list\<close>

lemma normalize_with_and:
  assumes "str_in '' and '' (strip y)"
  shows "normalize_author_list (CText y) = collapse_ws (strip y)"
proof -
  have "strip y \<noteq> []" using assms by (cases "strip y") simp_all
  then show ?thesis using assms by (simp add: normalize_author_list_def Let_def)
qed

lemma collapse_ws_fixed:
  assumes "s \<noteq> []" "\<not> is_space (hd s)" "\<not> is_space (last s)" "str_in '' and '' s"
  shows "normalize_author_list (CText (collapse_ws s)) = collapse_ws s"
proof -
  let ?z = "collapse_ws s"
  have z: "?z \<noteq> []" using assms(1) by (simp add: collapse_ws_Nil_iff)
  have "\<not> is_space (hd ?z)" "\<not> is_space (last ?z)"
    using assms by (simp_all add: collapse_ws_hd collapse_ws_last)
  then have st: "strip ?z = ?z" using z by (intro strip_id)
  have "str_in '' and '' ?z" using assms(4) by (rule collapse_ws_keeps_and)
  then have "str_in '' and '' (strip ?z)" using st by simp
  then have "normalize_author_list (CText ?z) = collapse_ws (strip ?z)"
    by (rule normalize_with_and)
  then show ?thesis unfolding st collapse_ws_idem .
qed

lemma heuristic_keeps_and:
  assumes "strip s = s" "str_in '' and '' (comma_count_heuristic s)"
  shows "str_in '' and '' (strip (comma_count_heuristic s))"
proof -
  define parts where
    "parts = map (\<lambda>p. strip_commas (strip p))
               (filter (\<lambda>p. strip_commas (strip p) \<noteq> []) (split_author_commas s))"
  have h: "comma_count_heuristic s =
      (if count_list s CHR '','' \<ge> 3 \<and> length parts > 1 then join '' and '' parts else s)"
    unfolding comma_count_heuristic_def Let_def parts_def by simp
  show ?thesis
  proof (cases "count_list s CHR '','' \<ge> 3 \<and> length parts > 1")
    case False
    have "comma_count_heuristic s = s" unfolding h using False by (rule if_not_P)
    then show ?thesis using assms by simp
  next
    case True
    have j: "comma_count_heuristic s = join '' and '' parts" unfolding h using True by (rule if_P)
    have pl: "\<forall>x \<in> set parts. x \<noteq> [] \<and> \<not> is_space (last x)"
      unfolding parts_def using heuristic_part_last by auto
    obtain p1 p2 rest where ps: "parts = p1 # p2 # rest"
      using True by (cases parts; cases "tl parts") auto
    let ?b = "join '' and '' (p2 # rest)"
    have jj: "join '' and '' parts = p1 @ '' and '' @ ?b" unfolding ps by simp
    have p1: "p1 \<noteq> []" "\<not> is_space (last p1)" using pl ps by simp_all
    then have a: "\<exists>c \<in> set p1. \<not> is_space c" using last_in_set by blast
    have "\<forall>x \<in> set (p2 # rest). x \<noteq> []" using pl ps by simp
    then have "?b \<noteq> [] \<and> last ?b = last (last (p2 # rest))"
      by (intro join_last) simp_all
    moreover have "\<not> is_space (last (last (p2 # rest)))"
      using pl ps by (metis last_in_set list.discI list.set_intros(2))
    ultimately have "?b \<noteq> []" "\<not> is_space (last ?b)" by simp_all
    then have b: "\<exists>c \<in> set ?b. \<not> is_space c" using last_in_set by blast
    have "strip (p1 @ '' and '' @ ?b) = lstrip p1 @ '' and '' @ rstrip ?b"
      using a b by (rule strip_middle)
    then show ?thesis unfolding j jj str_in_iff by blast
  qed
qed

lemma normalize_keeps_and:
  assumes "str_in '' and '' (normalize_author_list raw)"
  shows "str_in '' and '' (strip (normalize_author_list raw))"
proof (cases "is_empty raw")
  case True
  then show ?thesis using assms by (simp add: normalize_author_list_def)
next
  case ne: False
  define s where "s = strip (cell_str raw)"
  have ss: "strip s = s" unfolding s_def by (rule strip_strip)
  have s0: "s \<noteq> []" using ne unfolding s_def by (cases raw) simp_all
  have ends: "\<not> is_space (hd s)" "\<not> is_space (last s)"
    using strip_ends [of "cell_str raw"] s0 unfolding s_def by blast+
  define toks where "toks = map strip (split_char CHR '','' s)"
  show ?thesis
  proof (cases "str_in '' and '' s")
    case True
    then have n: "normalize_author_list raw = collapse_ws s"
      using ne by (simp add: normalize_author_list_def Let_def s_def)
    have "collapse_ws s \<noteq> []" using s0 by (simp add: collapse_ws_Nil_iff)
    moreover have "\<not> is_space (hd (collapse_ws s))" "\<not> is_space (last (collapse_ws s))"
      using s0 ends by (simp_all add: collapse_ws_hd collapse_ws_last)
    ultimately have "strip (collapse_ws s) = collapse_ws s" by (intro strip_id)
    then show ?thesis using assms unfolding n by simp
  next
    case na: False
    show ?thesis
    proof (cases "str_in '';'' s")
      case True
      define parts where
        "parts = map strip (filter (\<lambda>p. strip p \<noteq> []) (split_char CHR '';'' s))"
      have n: "normalize_author_list raw = join '' and '' parts"
        using ne na True by (simp add: normalize_author_list_def Let_def s_def parts_def)
      have pe: "\<forall>p \<in> set parts. p \<noteq> [] \<and> \<not> is_space (hd p) \<and> \<not> is_space (last p)"
        unfolding parts_def using strip_ends by auto
      have "parts \<noteq> []"
      proof
        assume "parts = []"
        then have "normalize_author_list raw = []" unfolding n by simp
        then show False using assms by simp
      qed
      then have "strip (join '' and '' parts) = join '' and '' parts"
        using pe by (rule strip_join)
      then show ?thesis using assms unfolding n by simp
    next
      case ns: False
      have n: "normalize_author_list raw =
          (if length toks \<ge> 4 \<and> length toks mod 2 = 0 \<and> pair_up toks \<noteq> []
           then join '' and '' (pair_up toks) else comma_count_heuristic s)"
        using ne na ns by (simp add: normalize_author_list_def Let_def s_def toks_def)
      show ?thesis
      proof (cases "length toks \<ge> 4 \<and> length toks mod 2 = 0 \<and> pair_up toks \<noteq> []")
        case True
        have n4: "normalize_author_list raw = join '' and '' (pair_up toks)"
          unfolding n using True by (rule if_P)
        have "\<forall>x \<in> set (pair_up toks). x \<noteq> [] \<and> \<not> is_space (hd x) \<and> \<not> is_space (last x)"
        proof
          fix x
          assume "x \<in> set (pair_up toks)"
          then obtain l f where lf: "l \<in> set toks" "f \<in> set toks" "l \<noteq> []" "f \<noteq> []"
            "x = l @ '', '' @ f"
            using pair_up_member by blast
          have "\<not> is_space (hd l)" "\<not> is_space (last f)"
            using lf(1-4) strip_ends unfolding toks_def by auto
          then show "x \<noteq> [] \<and> \<not> is_space (hd x) \<and> \<not> is_space (last x)"
            using lf(3-5) by simp
        qed
        moreover have "pair_up toks \<noteq> []" using True by simp
        ultimately have "strip (join '' and '' (pair_up toks)) = join '' and '' (pair_up toks)"
          by (intro strip_join)
        then show ?thesis using assms unfolding n4 by simp
      next
        case False
        have n5: "normalize_author_list raw = comma_count_heuristic s"
          unfolding n using False by (rule if_not_P)
        show ?thesis using assms unfolding n5 by (rule heuristic_keeps_and [OF ss])
      qed
    qed
  qed
qed

text \<open>
  Claim C8, as the code has it. For every input whose normalized form contains \<open>" and "\<close>,
  normalizing that form again returns it with leading and trailing whitespace removed and
  every whitespace run collapsed to one space, and this result is a fixed point: a third
  application changes nothing.
\<close>

theorem normalize_author_list_twice:
  "str_in '' and '' (normalize_author_list x) \<Longrightarrow>
     normalize_author_list (CText (normalize_author_list x))
       = collapse_ws (strip (normalize_author_list x))
   \<and> normalize_author_list (CText (normalize_author_list (CText (normalize_author_list x))))
       = normalize_author_list (CText (normalize_author_list x))"
proof -
  assume a: "str_in '' and '' (normalize_author_list x)"
  define y where "y = normalize_author_list x"
  have k: "str_in '' and '' (strip y)" unfolding y_def using a by (rule normalize_keeps_and)
  then have s0: "strip y \<noteq> []" by (cases "strip y") simp_all
  have 1: "normalize_author_list (CText y) = collapse_ws (strip y)"
    using k by (rule normalize_with_and)
  have "normalize_author_list (CText (collapse_ws (strip y))) = collapse_ws (strip y)"
    using s0 strip_ends [OF s0] k by (rule collapse_ws_fixed)
  then have 2: "normalize_author_list (CText (normalize_author_list (CText y)))
      = normalize_author_list (CText y)"
    unfolding 1 .
  from 1 2 show ?thesis unfolding y_def by (intro conjI)
qed

theorem normalize_author_list_twice_witness:
  "str_in '' and '' (normalize_author_list (CText ''Smith,  J; Doe, A''))
   \<and> normalize_author_list (CText ''Smith,  J; Doe, A'') = ''Smith,  J and Doe, A''
   \<and> normalize_author_list (CText ''Smith,  J and Doe, A'') = ''Smith, J and Doe, A''
   \<and> normalize_author_list (CText ''Smith, J and Doe, A'') = ''Smith, J and Doe, A''"
proof -
  have v: "normalize_author_list (CText ''Smith,  J; Doe, A'') = ''Smith,  J and Doe, A''"
    by code_simp
  have h: "str_in '' and '' (normalize_author_list (CText ''Smith,  J; Doe, A''))"
    unfolding v by code_simp
  have c: "collapse_ws (strip ''Smith,  J and Doe, A'') = ''Smith, J and Doe, A''"
    by code_simp
  note t = normalize_author_list_twice [OF h, unfolded v c]
  have r1: "normalize_author_list (CText ''Smith,  J and Doe, A'') = ''Smith, J and Doe, A''"
    using t by (rule conjunct1)
  have r2: "normalize_author_list (CText ''Smith, J and Doe, A'') = ''Smith, J and Doe, A''"
    using t unfolding r1 by (rule conjunct2)
  from h v r1 r2 show ?thesis by (intro conjI)
qed

text \<open>
  The second application need not return the once-normalized string, and the difference
  need not be a collapsed whitespace run. For \<open>, a,B,C,D\<close> the comma-count heuristic
  leaves a leading space on its first part, which the second application trims although
  that string has no whitespace run to collapse; for \<open>Smith,  J; Doe, A\<close> the second
  application collapses the double space that the first one kept.
\<close>

theorem normalize_author_list_idempotence_counterexample:
  "normalize_author_list (CText '', a,B,C,D'') = '' a and B and C and D''
   \<and> str_in '' and '' (normalize_author_list (CText '', a,B,C,D''))
   \<and> normalize_author_list (CText (normalize_author_list (CText '', a,B,C,D'')))
        = ''a and B and C and D''
   \<and> normalize_author_list (CText (normalize_author_list (CText '', a,B,C,D'')))
        \<noteq> normalize_author_list (CText '', a,B,C,D'')
   \<and> normalize_author_list (CText (normalize_author_list (CText '', a,B,C,D'')))
        \<noteq> collapse_ws (normalize_author_list (CText '', a,B,C,D''))
   \<and> normalize_author_list (CText ''Smith,  J; Doe, A'') = ''Smith,  J and Doe, A''
   \<and> normalize_author_list (CText (normalize_author_list (CText ''Smith,  J; Doe, A'')))
        = ''Smith, J and Doe, A''"
  by code_simp

end
